theory Spec2Isabelle
  imports Main
begin

section \<open>The STL surface writer of SU2 (CSTLFileWriter.cpp)\<close>

text \<open>
  The writer runs as one process per rank. Its three steps are
  \<^verbatim>\<open>ReprocessElementConnectivity\<close> (the halo exchange), \<^verbatim>\<open>GatherCoordData\<close> (the
  local buffer and its gather) and the serialisation of \<^verbatim>\<open>Write_Data\<close> on the master
  rank. A run is modelled on the list of all ranks' writer objects: the code between
  two collective calls is a function on one writer, a collective call is a function
  on the buffers of all ranks.

  Conventions. Counters, node numbers and sizes (\<^verbatim>\<open>int\<close>, \<^verbatim>\<open>unsigned long\<close>,
  \<^verbatim>\<open>unsigned short\<close>) are natural numbers: every quantity is taken to fit its machine
  type. A \<^verbatim>\<open>std::vector\<close> is a list; a write \<open>v[i] = x\<close> is \<open>v[i := x]\<close>, which leaves
  the list unchanged when \<open>i\<close> is out of range, and a read \<open>v[i]\<close> is \<open>v ! i\<close>, which is
  an unspecified value there (undefined behaviour in C++). Field values
  (\<^verbatim>\<open>su2double\<close>, \<^verbatim>\<open>double\<close>) are only copied by this code, never computed with, so their
  type is a parameter \<open>'v\<close> with a zero, the value of a freshly allocated entry.
\<close>

subsection \<open>Data model\<close>

datatype GEO_TYPE = TRIANGLE | QUADRILATERAL

datatype error = MPI_Error string

text \<open>
  Modelled from the spec: the corner counts of the two element shapes (``triangle: 3
  nodes; quadrilateral: 4 nodes''). The constants \<^verbatim>\<open>N_POINTS_TRIANGLE\<close> and
  \<^verbatim>\<open>N_POINTS_QUADRILATERAL\<close> are declared in a header that is not among the sources.
\<close>

definition N_POINTS_TRIANGLE :: nat where
  "N_POINTS_TRIANGLE = 3"

definition N_POINTS_QUADRILATERAL :: nat where
  "N_POINTS_QUADRILATERAL = 4"

text \<open>
  The data sorter is an external collaborator (\<^verbatim>\<open>CParallelDataSorter\<close>, not among the
  sources). The writer uses five of its methods; they are the fields of this record,
  one record per rank. \<open>GetElem_Connectivity\<close> returns global node numbers that start
  at 1; \<open>GetData iVar iPoint\<close> is the value of field \<open>iVar\<close> at the local node offset
  \<open>iPoint\<close>.
\<close>

record 'v CParallelDataSorter =
  GetnElem :: "GEO_TYPE \<Rightarrow> nat"
  GetElem_Connectivity :: "GEO_TYPE \<Rightarrow> nat \<Rightarrow> nat \<Rightarrow> nat"
  FindProcessor :: "nat \<Rightarrow> nat"
  GetNodeBegin :: "nat \<Rightarrow> nat"
  GetData :: "nat \<Rightarrow> nat \<Rightarrow> 'v"

text \<open>
  The members of \<^verbatim>\<open>CSTLFileWriter\<close> (and of its base class) that the three steps read
  or write. \<open>size_mpi\<close> is the member \<^verbatim>\<open>size\<close>, the number of ranks; \<open>halo_nodes\<close> is a
  \<^verbatim>\<open>std::set\<close>, kept as its ascending list of distinct elements.
\<close>

record 'v CSTLFileWriter =
  rank :: nat
  size_mpi :: nat
  fieldnames :: "string list"
  dataSorter :: "'v CParallelDataSorter"
  halo_nodes :: "nat list"
  sorted_halo_nodes :: "nat list"
  num_halo_nodes :: nat
  num_nodes_to_receive :: "nat list"
  num_nodes_to_send :: "nat list"
  nodes_to_send_displacements :: "nat list"
  nodes_to_receive_displacements :: "nat list"
  nodes_to_send :: "nat list"
  data_to_send :: "'v list"
  halo_var_data :: "'v list"
  num_values_to_send :: "nat list"
  values_to_send_displacements :: "nat list"
  num_values_to_receive :: "nat list"
  values_to_receive_displacements :: "nat list"
  MaxLocalTriaAll :: nat
  Buffer_Recv_nTriaAll :: "nat list"
  bufD_Recv :: "'v list"

text \<open>The writer as its constructor leaves it: every container empty.\<close>

definition new_CSTLFileWriter ::
  "string list \<Rightarrow> nat \<Rightarrow> nat \<Rightarrow> 'v CParallelDataSorter \<Rightarrow> 'v CSTLFileWriter" where
  "new_CSTLFileWriter fnames n r ds =
     \<lparr> rank = r, size_mpi = n, fieldnames = fnames, dataSorter = ds,
       halo_nodes = [], sorted_halo_nodes = [], num_halo_nodes = 0,
       num_nodes_to_receive = [], num_nodes_to_send = [],
       nodes_to_send_displacements = [], nodes_to_receive_displacements = [],
       nodes_to_send = [], data_to_send = [], halo_var_data = [],
       num_values_to_send = [], values_to_send_displacements = [],
       num_values_to_receive = [], values_to_receive_displacements = [],
       MaxLocalTriaAll = 0, Buffer_Recv_nTriaAll = [], bufD_Recv = [] \<rparr>"

text \<open>One writer per rank, rank \<open>r\<close> holding the \<open>r\<close>-th data sorter.\<close>

definition new_writers :: "string list \<Rightarrow> 'v CParallelDataSorter list \<Rightarrow> 'v CSTLFileWriter list" where
  "new_writers fnames sorters =
     map (\<lambda>r. new_CSTLFileWriter fnames (length sorters) r (sorters ! r)) [0..<length sorters]"

subsection \<open>Vectors and the standard library\<close>

text \<open>\<^verbatim>\<open>v.resize(n, x)\<close>: truncate, or extend with copies of \<open>x\<close>.\<close>

definition resize :: "nat \<Rightarrow> 'a \<Rightarrow> 'a list \<Rightarrow> 'a list" where
  "resize n x xs = take n xs @ replicate (n - length xs) x"

text \<open>
  \<^verbatim>\<open>std::lower_bound\<close> on an ascending range: the position of the first element that is
  not less than the value (the length of the range when there is none).
\<close>

definition lower_bound :: "nat list \<Rightarrow> nat \<Rightarrow> nat" where
  "lower_bound xs v = length (takeWhile (\<lambda>x. x < v) xs)"

text \<open>The statement \<open>buf[index++] = x\<close> on a buffer and its running index.\<close>

definition store :: "'a \<Rightarrow> 'a list \<times> nat \<Rightarrow> 'a list \<times> nat" where
  "store x st = ((fst st)[snd st := x], Suc (snd st))"

subsection \<open>Collective communication\<close>

text \<open>
  The MPI collectives (the wrappers \<^verbatim>\<open>SU2_MPI::...\<close> are not among the sources) follow
  the MPI standard. \<open>write_at dst off blk\<close> stores the block \<open>blk\<close> in \<open>dst\<close> from
  position \<open>off\<close> on; \<open>slice buf off n\<close> reads \<open>n\<close> elements of \<open>buf\<close> from \<open>off\<close> on.
\<close>

definition write_at :: "'a list \<Rightarrow> nat \<Rightarrow> 'a list \<Rightarrow> 'a list" where
  "write_at dst off blk = fold (\<lambda>k d. d[off + k := blk ! k]) [0..<length blk] dst"

definition slice :: "'a list \<Rightarrow> nat \<Rightarrow> nat \<Rightarrow> 'a list" where
  "slice buf off n = map (\<lambda>k. buf ! (off + k)) [0..<n]"

text \<open>
  \<^verbatim>\<open>MPI_Alltoall\<close> with one element per peer: rank \<open>r\<close> receives, at position \<open>s\<close>,
  element \<open>r\<close> of the send buffer of rank \<open>s\<close>. The receive buffer has one entry per
  rank, so all of it is overwritten.
\<close>

definition Alltoall :: "'a list list \<Rightarrow> nat \<Rightarrow> 'a list" where
  "Alltoall sendbufs r = map (\<lambda>s. sendbufs ! s ! r) [0..<length sendbufs]"

text \<open>
  \<^verbatim>\<open>MPI_Alltoallv\<close>, the receiving side of rank \<open>r\<close>. \<open>sends ! s\<close> is the triple (send
  buffer, send counts, send displacements) of rank \<open>s\<close>. Rank \<open>s\<close> sends to \<open>r\<close> the
  \<open>sendcounts ! r\<close> elements of its buffer from \<open>sdispls ! r\<close> on; rank \<open>r\<close> stores at
  most \<open>recvcounts ! s\<close> of them from \<open>rdispls ! s\<close> on.
\<close>

definition Alltoallv ::
  "('a list \<times> nat list \<times> nat list) list \<Rightarrow> nat \<Rightarrow> 'a list \<Rightarrow> nat list \<Rightarrow> nat list \<Rightarrow> 'a list" where
  "Alltoallv sends r recvbuf recvcounts rdispls =
     fold (\<lambda>s buf. case sends ! s of (sendbuf, sendcounts, sdispls) \<Rightarrow>
             write_at buf (rdispls ! s)
               (take (recvcounts ! s) (slice sendbuf (sdispls ! r) (sendcounts ! r))))
          [0..<length sends] recvbuf"

subsection \<open>ReprocessElementConnectivity\<close>

text \<open>
  Lines 71 to 77: every corner reference of the local elements of one shape, read as
  \<open>GetElem_Connectivity ty 0 i\<close> for \<open>i\<close> below the number of elements times the number
  of corners; a reference owned by another rank goes into the set.
\<close>

definition insert_halo_nodes ::
  "'v CParallelDataSorter \<Rightarrow> nat \<Rightarrow> GEO_TYPE \<Rightarrow> nat \<Rightarrow> nat list \<Rightarrow> nat list" where
  "insert_halo_nodes ds rk ty npoints hs =
     fold (\<lambda>i h. if FindProcessor ds (GetElem_Connectivity ds ty 0 i - 1) \<noteq> rk
                  then insort_insert (GetElem_Connectivity ds ty 0 i - 1) h else h)
          [0..<GetnElem ds ty * npoints] hs"

text \<open>
  Lines 86 to 94: the owner of every halo node. (The vector \<^verbatim>\<open>neighbor_nodes\<close> of the
  same loop and the vector \<^verbatim>\<open>partition_owners\<close> are never read; they are left out.)
\<close>

definition neighbor_partitions :: "'v CParallelDataSorter \<Rightarrow> nat list \<Rightarrow> nat \<Rightarrow> nat list" where
  "neighbor_partitions ds shn nhalo =
     fold (\<lambda>i np. np[i := FindProcessor ds (shn ! i)]) [0..<nhalo] (replicate (max 1 nhalo) 0)"

text \<open>Lines 97 and 98: \<open>++num_nodes_to_receive[neighbor_partitions[i]]\<close>.\<close>

definition count_nodes_to_receive :: "nat list \<Rightarrow> nat \<Rightarrow> nat list \<Rightarrow> nat list" where
  "count_nodes_to_receive np nhalo cnt =
     fold (\<lambda>i c. c[np ! i := Suc (c ! (np ! i))]) [0..<nhalo] cnt"

text \<open>Lines 71 to 81: the halo node set of a rank, from an empty set.\<close>

definition halo_list :: "'v CParallelDataSorter \<Rightarrow> nat \<Rightarrow> nat list" where
  "halo_list ds rk =
     insert_halo_nodes ds rk QUADRILATERAL N_POINTS_QUADRILATERAL
       (insert_halo_nodes ds rk TRIANGLE N_POINTS_TRIANGLE [])"

text \<open>Lines 55 to 99, up to the first collective call.\<close>

definition Reprocess_halo_nodes :: "('v::zero) CSTLFileWriter \<Rightarrow> 'v CSTLFileWriter" where
  "Reprocess_halo_nodes w =
     (let ds = dataSorter w;
          hn = halo_list ds (rank w);
          nhalo = length hn;
          np = neighbor_partitions ds hn nhalo
      in w\<lparr> halo_nodes := hn,
            sorted_halo_nodes := hn,
            num_halo_nodes := nhalo,
            num_nodes_to_receive :=
              count_nodes_to_receive np nhalo (resize (size_mpi w) 0 (num_nodes_to_receive w)),
            values_to_receive_displacements :=
              resize (size_mpi w) 0 (values_to_receive_displacements w),
            num_nodes_to_send := resize (size_mpi w) 0 (num_nodes_to_send w) \<rparr>)"

text \<open>
  Lines 106 to 114: the displacements are the running sums of the counts. The loop
  of the source fills the send and the receive displacements side by side; neither
  reads the other, so each is one application of this function.
\<close>

definition displacements :: "nat \<Rightarrow> nat list \<Rightarrow> nat list \<Rightarrow> nat list" where
  "displacements n counts d =
     fold (\<lambda>iRank d. d[iRank := d ! (iRank - 1) + counts ! (iRank - 1)]) [1..<n] (d[0 := 0])"

definition total_num_nodes_to_send :: "'v CSTLFileWriter \<Rightarrow> nat" where
  "total_num_nodes_to_send w =
     nodes_to_send_displacements w ! (size_mpi w - 1) + num_nodes_to_send w ! (size_mpi w - 1)"

text \<open>Lines 106 to 122, between the first and the second collective call.\<close>

definition Reprocess_displacements :: "('v::zero) CSTLFileWriter \<Rightarrow> 'v CSTLFileWriter" where
  "Reprocess_displacements w =
     (let w1 = w\<lparr> nodes_to_send_displacements :=
                    displacements (size_mpi w) (num_nodes_to_send w)
                      (resize (size_mpi w) 0 (nodes_to_send_displacements w)),
                  nodes_to_receive_displacements :=
                    displacements (size_mpi w) (num_nodes_to_receive w)
                      (resize (size_mpi w) 0 (nodes_to_receive_displacements w)) \<rparr>
      in w1\<lparr> nodes_to_send := resize (max 1 (total_num_nodes_to_send w1)) 0 (nodes_to_send w1),
             sorted_halo_nodes :=
               (if sorted_halo_nodes w1 = [] then resize 1 0 (sorted_halo_nodes w1)
                else sorted_halo_nodes w1) \<rparr>)"

text \<open>
  Lines 135 to 150, the four count and displacement vectors: entry \<open>iRank\<close> of each is
  assigned in iteration \<open>iRank\<close>.
\<close>

definition assign_all :: "nat \<Rightarrow> (nat \<Rightarrow> 'a) \<Rightarrow> 'a list \<Rightarrow> 'a list" where
  "assign_all n f v = fold (\<lambda>iRank v. v[iRank := f iRank]) [0..<n] v"

text \<open>
  Lines 133 to 150, the send buffer: for every rank, for every field, for every node
  that rank asked for, the value of the field at the node's local offset, stored at
  the running index. (\<^verbatim>\<open>SU2_TYPE::GetValue\<close> is the identity on a passive value.)
\<close>

definition pack_data_to_send :: "'v CSTLFileWriter \<Rightarrow> 'v list \<times> nat \<Rightarrow> 'v list \<times> nat" where
  "pack_data_to_send w =
     fold (\<lambda>iRank.
       fold (\<lambda>iVar.
         fold (\<lambda>iNode.
           store (GetData (dataSorter w) iVar
                   (nodes_to_send w ! (nodes_to_send_displacements w ! iRank + iNode)
                      - GetNodeBegin (dataSorter w) (rank w))))
           [0..<num_nodes_to_send w ! iRank])
         [0..<length (fieldnames w)])
       [0..<size_mpi w]"

text \<open>Lines 128 to 150, between the second and the third collective call.\<close>

definition Reprocess_pack :: "('v::zero) CSTLFileWriter \<Rightarrow> 'v CSTLFileWriter" where
  "Reprocess_pack w =
     (let n = size_mpi w; nf = length (fieldnames w)
      in w\<lparr> data_to_send :=
              fst (pack_data_to_send w
                (resize (max 1 (total_num_nodes_to_send w * nf)) 0 (data_to_send w), 0)),
            halo_var_data := resize (max 1 (nf * num_halo_nodes w)) 0 (halo_var_data w),
            num_values_to_send :=
              assign_all n (\<lambda>iRank. num_nodes_to_send w ! iRank * nf)
                (resize n 0 (num_values_to_send w)),
            values_to_send_displacements :=
              assign_all n (\<lambda>iRank. nodes_to_send_displacements w ! iRank * nf)
                (resize n 0 (values_to_send_displacements w)),
            num_values_to_receive :=
              assign_all n (\<lambda>iRank. num_nodes_to_receive w ! iRank * nf)
                (resize n 0 (num_values_to_receive w)),
            values_to_receive_displacements :=
              assign_all n (\<lambda>iRank. nodes_to_receive_displacements w ! iRank * nf)
                (values_to_receive_displacements w) \<rparr>)"

text \<open>
  The function on all ranks, in its three phases; each ends with a collective call
  (lines 100, 123 and 152). Rank \<open>r\<close> is the \<open>r\<close>-th writer of the list.

  The demand phase: the halo nodes and the counts per owner, the exchange of the
  counts, and the displacements.
\<close>

definition demand_phase :: "('v::zero) CSTLFileWriter list \<Rightarrow> 'v CSTLFileWriter list" where
  "demand_phase ws =
     (let ws1 = map Reprocess_halo_nodes ws
      in map (\<lambda>w. Reprocess_displacements
                    (w\<lparr> num_nodes_to_send := Alltoall (map num_nodes_to_receive ws1) (rank w) \<rparr>))
           ws1)"

text \<open>The request phase: the exchange of the node numbers, and the packing of their data.\<close>

definition request_phase :: "('v::zero) CSTLFileWriter list \<Rightarrow> 'v CSTLFileWriter list" where
  "request_phase ws =
     map (\<lambda>w. Reprocess_pack
                (w\<lparr> nodes_to_send :=
                     Alltoallv
                       (map (\<lambda>u. (sorted_halo_nodes u, num_nodes_to_receive u,
                                  nodes_to_receive_displacements u)) ws)
                       (rank w) (nodes_to_send w) (num_nodes_to_send w)
                       (nodes_to_send_displacements w) \<rparr>)) ws"

text \<open>The data phase: the exchange of the packed values.\<close>

definition data_phase :: "'v CSTLFileWriter list \<Rightarrow> 'v CSTLFileWriter list" where
  "data_phase ws =
     map (\<lambda>w. w\<lparr> halo_var_data :=
                   Alltoallv
                     (map (\<lambda>u. (data_to_send u, num_values_to_send u,
                                values_to_send_displacements u)) ws)
                     (rank w) (halo_var_data w) (num_values_to_receive w)
                     (values_to_receive_displacements w) \<rparr>) ws"

definition ReprocessElementConnectivity ::
  "('v::zero) CSTLFileWriter list \<Rightarrow> 'v CSTLFileWriter list" where
  "ReprocessElementConnectivity ws = data_phase (request_phase (demand_phase ws))"

subsection \<open>GetHaloNodeValue\<close>

text \<open>
  The inner loop over \<open>i\<close>: \<open>Inl x\<close> is the early \<^verbatim>\<open>return x\<close>, \<open>Inr id'\<close> is the counter
  \<^verbatim>\<open>id\<close> after a loop that ran to its end.
\<close>

fun halo_scan_nodes :: "'v list \<Rightarrow> nat \<Rightarrow> nat \<Rightarrow> nat list \<Rightarrow> nat \<Rightarrow> 'v + nat" where
  "halo_scan_nodes hvd displ offset [] id' = Inr id'"
| "halo_scan_nodes hvd displ offset (i # is) id' =
     (if id' = offset then Inl (hvd ! (displ + i))
      else halo_scan_nodes hvd displ offset is (Suc id'))"

text \<open>The outer loop over \<open>iRank\<close>: \<open>None\<close> when both loops ran to their end.\<close>

fun halo_scan_ranks :: "'v CSTLFileWriter \<Rightarrow> nat \<Rightarrow> nat \<Rightarrow> nat list \<Rightarrow> nat \<Rightarrow> 'v option" where
  "halo_scan_ranks w iVar offset [] id' = None"
| "halo_scan_ranks w iVar offset (iRank # rs) id' =
     (case halo_scan_nodes (halo_var_data w)
             (values_to_receive_displacements w ! iRank + num_nodes_to_receive w ! iRank * iVar)
             offset [0..<num_nodes_to_receive w ! iRank] id' of
        Inl x \<Rightarrow> Some x
      | Inr id'' \<Rightarrow> halo_scan_ranks w iVar offset rs id'')"

text \<open>
  \<^verbatim>\<open>SU2_MPI::Error\<close> ends the run on all ranks; it is the error value \<open>Inl\<close>.
\<close>

definition GetHaloNodeValue :: "'v CSTLFileWriter \<Rightarrow> nat \<Rightarrow> nat \<Rightarrow> error + 'v" where
  "GetHaloNodeValue w global_node_number iVar =
     (let offset = lower_bound (sorted_halo_nodes w) global_node_number
      in case halo_scan_ranks w iVar offset [0..<size_mpi w] 0 of
           Some x \<Rightarrow> Inr x
         | None \<Rightarrow> Inl (MPI_Error ''STL File-Writer: Halo node not found.''))"

subsection \<open>GatherCoordData\<close>

text \<open>
  A loop whose body may end the run: the first error leaves the loop.
\<close>

fun for_loop :: "nat list \<Rightarrow> (nat \<Rightarrow> 's \<Rightarrow> error + 's) \<Rightarrow> 's \<Rightarrow> error + 's" where
  "for_loop [] body st = Inr st"
| "for_loop (i # is) body st =
     (case body i st of Inl e \<Rightarrow> Inl e | Inr st' \<Rightarrow> for_loop is body st')"

text \<open>Line 183: the corners of the two triangles of a quadrilateral.\<close>

definition Nodelist :: "nat list" where
  "Nodelist = [0, 1, 3, 1, 2, 3]"

text \<open>Line 191.\<close>

definition nLocalTriaAll :: "'v CSTLFileWriter \<Rightarrow> nat" where
  "nLocalTriaAll w =
     GetnElem (dataSorter w) TRIANGLE + GetnElem (dataSorter w) QUADRILATERAL * 2"

text \<open>
  Lines 220 to 224 and 239 to 243 (the same text): the coordinate \<open>iVar\<close> of a node,
  read from the local data when the rank owns the node and from the halo data
  otherwise.
\<close>

definition node_value :: "'v CSTLFileWriter \<Rightarrow> nat \<Rightarrow> nat \<Rightarrow> error + 'v" where
  "node_value w global_node_number iVar =
     (if FindProcessor (dataSorter w) global_node_number = rank w
      then Inr (GetData (dataSorter w) iVar
                 (global_node_number - GetNodeBegin (dataSorter w) (rank w)))
      else GetHaloNodeValue w global_node_number iVar)"

text \<open>
  Lines 219 to 227 and 238 to 246: the three coordinates of one node, stored at the
  running index.
\<close>

definition load_node ::
  "'v CSTLFileWriter \<Rightarrow> nat \<Rightarrow> 'v list \<times> nat \<Rightarrow> error + 'v list \<times> nat" where
  "load_node w global_node_number =
     for_loop [0..<3] (\<lambda>iVar st.
       case node_value w global_node_number iVar of
         Inl e \<Rightarrow> Inl e
       | Inr x \<Rightarrow> Inr (store x st))"

text \<open>Lines 213 to 229.\<close>

definition load_triangles ::
  "'v CSTLFileWriter \<Rightarrow> 'v list \<times> nat \<Rightarrow> error + 'v list \<times> nat" where
  "load_triangles w =
     for_loop [0..<GetnElem (dataSorter w) TRIANGLE] (\<lambda>iElem.
       for_loop [0..<3] (\<lambda>iPoint.
         load_node w (GetElem_Connectivity (dataSorter w) TRIANGLE iElem iPoint - 1)))"

text \<open>Lines 233 to 248.\<close>

definition load_quadrilaterals ::
  "'v CSTLFileWriter \<Rightarrow> 'v list \<times> nat \<Rightarrow> error + 'v list \<times> nat" where
  "load_quadrilaterals w =
     for_loop [0..<GetnElem (dataSorter w) QUADRILATERAL] (\<lambda>iElem.
       for_loop [0..<length Nodelist] (\<lambda>iPoint.
         load_node w
           (GetElem_Connectivity (dataSorter w) QUADRILATERAL iElem (Nodelist ! iPoint) - 1)))"

text \<open>
  Lines 206 to 248: the send buffer of one rank, allocated with
  \<open>MaxLocalTriaAll * 3 * 3\<close> zeros, after both loops.
\<close>

definition load_send_buffer :: "('v::zero) CSTLFileWriter \<Rightarrow> error + 'v list" where
  "load_send_buffer w =
     (case load_triangles w (replicate (MaxLocalTriaAll w * 3 * 3) 0, 0) of
        Inl e \<Rightarrow> Inl e
      | Inr st \<Rightarrow> (case load_quadrilaterals w st of
                     Inl e \<Rightarrow> Inl e
                   | Inr st' \<Rightarrow> Inr (fst st')))"

text \<open>\<^verbatim>\<open>MPI_Allreduce\<close> with \<^verbatim>\<open>MPI_MAX\<close> on one unsigned value per rank.\<close>

definition Allreduce_MAX :: "nat list \<Rightarrow> nat" where
  "Allreduce_MAX xs = fold max xs 0"

text \<open>
  \<^verbatim>\<open>MPI_Gather\<close>: the receive buffer of the root holds the first \<open>count\<close> elements of
  every rank's send buffer, in rank order.
\<close>

definition Gather :: "'a list list \<Rightarrow> nat \<Rightarrow> 'a list" where
  "Gather sendbufs count = concat (map (\<lambda>b. slice b 0 count) sendbufs)"

text \<open>The run on all ranks ends with the first error of a rank.\<close>

fun all_ranks :: "(error + 'a) list \<Rightarrow> error + 'a list" where
  "all_ranks [] = Inr []"
| "all_ranks (x # xs) =
     (case x of Inl e \<Rightarrow> Inl e
      | Inr y \<Rightarrow> (case all_ranks xs of Inl e \<Rightarrow> Inl e | Inr ys \<Rightarrow> Inr (y # ys)))"

text \<open>
  The function on all ranks. \<open>MASTER_NODE\<close> is a constant of a header that is not
  among the sources; it is a parameter here. Only the master rank allocates and
  receives \<open>Buffer_Recv_nTriaAll\<close> and \<open>bufD_Recv\<close>.

  Lines 189 to 203: the largest count of all ranks, and the counts on the master.
\<close>

definition GatherCoordData_counts ::
  "nat \<Rightarrow> 'v CSTLFileWriter list \<Rightarrow> 'v CSTLFileWriter list" where
  "GatherCoordData_counts MASTER_NODE ws =
     map (\<lambda>w. w\<lparr> MaxLocalTriaAll := Allreduce_MAX (map nLocalTriaAll ws),
                   Buffer_Recv_nTriaAll :=
                     (if rank w = MASTER_NODE then Gather (map (\<lambda>u. [nLocalTriaAll u]) ws) 1
                      else Buffer_Recv_nTriaAll w) \<rparr>) ws"

text \<open>Lines 206 to 253: the send buffers and their gather on the master.\<close>

definition GatherCoordData ::
  "nat \<Rightarrow> ('v::zero) CSTLFileWriter list \<Rightarrow> error + 'v CSTLFileWriter list" where
  "GatherCoordData MASTER_NODE ws =
     (let ws1 = GatherCoordData_counts MASTER_NODE ws
      in case all_ranks (map load_send_buffer ws1) of
           Inl e \<Rightarrow> Inl e
         | Inr bufD_Send \<Rightarrow>
             Inr (map (\<lambda>w. if rank w = MASTER_NODE
                            then w\<lparr> bufD_Recv := Gather bufD_Send (MaxLocalTriaAll w * 3 * 3) \<rparr>
                            else w) ws1))"

subsection \<open>Write_Data\<close>

text \<open>
  The file is the list of its lines, each one ended by \<^verbatim>\<open>endl\<close> in the source. How
  the stream prints a value at a given precision is a parameter \<open>out\<close> (floating-point
  formatting is not modelled); the integers 1, 2 and 3 of the normal print as digits.
\<close>

definition stl_vertex :: "('v \<Rightarrow> string) \<Rightarrow> 'v list \<Rightarrow> nat \<Rightarrow> string" where
  "stl_vertex out buf index =
     ''        vertex'' @ concat (map (\<lambda>iVar. '' '' @ out (buf ! (index + iVar))) [0..<3])"

definition stl_facet :: "('v \<Rightarrow> string) \<Rightarrow> 'v list \<Rightarrow> nat \<Rightarrow> nat \<Rightarrow> nat \<Rightarrow> string list" where
  "stl_facet out buf maxTria iProcessor iElem =
     [''facet normal '' @ ''1'' @ '' '' @ ''2'' @ '' '' @ ''3'', ''    outer loop'']
     @ map (\<lambda>iPoint. stl_vertex out buf (iProcessor * maxTria * 3 * 3 + iElem * 3 * 3 + iPoint * 3))
         [0..<3]
     @ [''    endloop'', ''endfacet'']"

text \<open>Lines 295 to 325, on the master rank.\<close>

definition stl_file :: "(nat \<Rightarrow> 'v \<Rightarrow> string) \<Rightarrow> 'v CSTLFileWriter \<Rightarrow> string list" where
  "stl_file out w =
     [''solid SU2_output'']
     @ concat (map (\<lambda>iProcessor.
         concat (map (\<lambda>iElem. stl_facet (out 6) (bufD_Recv w) (MaxLocalTriaAll w) iProcessor iElem)
           [0..<Buffer_Recv_nTriaAll w ! iProcessor]))
         [0..<size_mpi w])
     @ [''endsolid SU2_output'']"

text \<open>
  The whole call on all ranks. The result lists, for every rank, the file that rank
  wrote: \<open>None\<close> for a rank that opened no file.
\<close>

definition Write_Data ::
  "(nat \<Rightarrow> 'v \<Rightarrow> string) \<Rightarrow> nat \<Rightarrow> ('v::zero) CSTLFileWriter list \<Rightarrow> error + string list option list" where
  "Write_Data out MASTER_NODE ws =
     (case GatherCoordData MASTER_NODE (ReprocessElementConnectivity ws) of
        Inl e \<Rightarrow> Inl e
      | Inr ws' \<Rightarrow>
          Inr (map (\<lambda>w. if rank w = MASTER_NODE then Some (stl_file out w) else None) ws'))"

subsection \<open>Specification-level notions\<close>

text \<open>
  The global node numbers (starting at 0) of the corners of a rank's elements of one
  shape, in (element, corner) order, and of all its triangles and quadrilaterals.
\<close>

definition corner_nodes :: "'v CParallelDataSorter \<Rightarrow> GEO_TYPE \<Rightarrow> nat \<Rightarrow> nat list" where
  "corner_nodes ds ty npoints =
     concat (map (\<lambda>iElem. map (\<lambda>iPoint. GetElem_Connectivity ds ty iElem iPoint - 1) [0..<npoints])
               [0..<GetnElem ds ty])"

definition referenced_nodes :: "'v CParallelDataSorter \<Rightarrow> nat list" where
  "referenced_nodes ds =
     corner_nodes ds TRIANGLE N_POINTS_TRIANGLE @ corner_nodes ds QUADRILATERAL N_POINTS_QUADRILATERAL"

text \<open>
  The connectivity of one shape is stored corner after corner, element after
  element: corner \<open>iPoint\<close> of element \<open>iElem\<close> is entry \<open>iElem * npoints + iPoint\<close>
  counted from element 0. Lines 72 to 77 of the source rely on it.
\<close>

definition flat_connectivity :: "'v CParallelDataSorter \<Rightarrow> GEO_TYPE \<Rightarrow> nat \<Rightarrow> bool" where
  "flat_connectivity ds ty npoints \<longleftrightarrow>
     (\<forall>iElem \<in> set [0..<GetnElem ds ty]. \<forall>iPoint \<in> set [0..<npoints].
        GetElem_Connectivity ds ty iElem iPoint
          = GetElem_Connectivity ds ty 0 (iElem * npoints + iPoint))"

text \<open>
  Modelled from the spec: the node partition (``rank \<open>r\<close> owns IDs in
  \<open>[NodeBegin(r), NodeBegin(r+1))\<close>'' and \<open>FindOwner\<close> ``derived from the global node
  partition boundaries''). The partitioner of the data sorter is not among the
  sources. \<open>bounds\<close> lists \<open>NodeBegin 0, ..., NodeBegin size\<close>; the owner of a node is
  the number of upper boundaries that are not above it.
\<close>

definition NodeBegin :: "nat list \<Rightarrow> nat \<Rightarrow> nat" where
  "NodeBegin bounds r = bounds ! r"

definition FindOwner :: "nat list \<Rightarrow> nat \<Rightarrow> nat" where
  "FindOwner bounds g = length (takeWhile (\<lambda>b. b \<le> g) (tl bounds))"

text \<open>
  The halo nodes of rank \<open>r\<close> that rank \<open>s\<close> owns, in ascending order: what \<open>r\<close>
  requests from \<open>s\<close>.
\<close>

definition requested :: "'v CParallelDataSorter list \<Rightarrow> nat \<Rightarrow> nat \<Rightarrow> nat list" where
  "requested sorters r s =
     filter (\<lambda>g. FindProcessor (sorters ! r) g = s) (halo_list (sorters ! r) r)"

text \<open>
  The values of \<open>nf\<close> fields at a list of nodes of the rank \<open>rk\<close>, field after field:
  all nodes' values of field 0, then all nodes' values of field 1, and so on.
\<close>

definition packed_block :: "'v CParallelDataSorter \<Rightarrow> nat \<Rightarrow> nat \<Rightarrow> nat list \<Rightarrow> 'v list" where
  "packed_block ds rk nf nodes =
     concat (map (\<lambda>iVar. map (\<lambda>g. GetData ds iVar (g - GetNodeBegin ds rk)) nodes) [0..<nf])"

text \<open>
  The packing that the specification describes for the data phase: the fields of one
  requested node next to each other, node after node.
\<close>

definition packed_per_node :: "'v CParallelDataSorter \<Rightarrow> nat \<Rightarrow> nat \<Rightarrow> nat list \<Rightarrow> 'v list" where
  "packed_per_node ds rk nf nodes =
     concat (map (\<lambda>g. map (\<lambda>iVar. GetData ds iVar (g - GetNodeBegin ds rk)) [0..<nf]) nodes)"

text \<open>
  A valid, consistently partitioned mesh on \<open>length sorters\<close> ranks. The data sorter
  holds at least the three coordinates that the writer reads for every node. On every
  rank the connectivity is stored flat, every referenced node has an owner among the
  ranks, the owner grows with the node number (every rank owns one contiguous range
  of node numbers), and the ranks agree on where the range of a rank begins.
\<close>

definition valid_mesh :: "string list \<Rightarrow> 'v CParallelDataSorter list \<Rightarrow> bool" where
  "valid_mesh fnames sorters \<longleftrightarrow>
     3 \<le> length fnames \<and>
     (\<forall>r \<in> set [0..<length sorters].
        flat_connectivity (sorters ! r) TRIANGLE N_POINTS_TRIANGLE \<and>
        flat_connectivity (sorters ! r) QUADRILATERAL N_POINTS_QUADRILATERAL \<and>
        (\<forall>g \<in> set (referenced_nodes (sorters ! r)).
           FindProcessor (sorters ! r) g < length sorters \<and>
           (\<forall>g' \<in> set (referenced_nodes (sorters ! r)).
              g \<le> g' \<longrightarrow> FindProcessor (sorters ! r) g \<le> FindProcessor (sorters ! r) g')) \<and>
        (\<forall>s \<in> set [0..<length sorters].
           GetNodeBegin (sorters ! r) s = GetNodeBegin (sorters ! s) s))"

text \<open>
  The nodes that the loop over the quadrilaterals loads, in its order, and the loading
  of a list of nodes, one after another.
\<close>

definition quadrilateral_nodes :: "'v CParallelDataSorter \<Rightarrow> nat list" where
  "quadrilateral_nodes ds =
     concat (map (\<lambda>iElem. map (\<lambda>iPoint. GetElem_Connectivity ds QUADRILATERAL iElem (Nodelist ! iPoint) - 1)
                            [0..<length Nodelist])
               [0..<GetnElem ds QUADRILATERAL])"

fun load_nodes :: "'v CSTLFileWriter \<Rightarrow> nat list \<Rightarrow> 'v list \<times> nat \<Rightarrow> error + 'v list \<times> nat" where
  "load_nodes w [] st = Inr st"
| "load_nodes w (g # gs) st =
     (case load_node w g st of Inl e \<Rightarrow> Inl e | Inr st' \<Rightarrow> load_nodes w gs st')"

text \<open>
  The split of the quadrilaterals as the specification words it: a quadrilateral with
  the corners \<open>[A, B, C, D]\<close> at the positions 0, 1, 2, 3 gives the triangle
  \<open>[A, B, D]\<close> (positions 0, 1, 3) followed by the triangle \<open>[B, C, D]\<close> (positions
  1, 2, 3). This data sorter has these triangles, two per quadrilateral of \<open>ds\<close>, as
  its native triangles, and everything else as \<open>ds\<close> has it.
\<close>

definition quads_as_triangles :: "'v CParallelDataSorter \<Rightarrow> 'v CParallelDataSorter" where
  "quads_as_triangles ds =
     ds\<lparr> GetnElem := (\<lambda>ty. case ty of TRIANGLE \<Rightarrow> 2 * GetnElem ds QUADRILATERAL
                                    | QUADRILATERAL \<Rightarrow> 0),
         GetElem_Connectivity :=
           (\<lambda>ty iElem iPoint.
              case ty of
                TRIANGLE \<Rightarrow>
                  GetElem_Connectivity ds QUADRILATERAL (iElem div 2)
                    ((if iElem mod 2 = 0 then [0, 1, 3] else [1, 2, 3]) ! iPoint)
              | QUADRILATERAL \<Rightarrow> GetElem_Connectivity ds QUADRILATERAL iElem iPoint) \<rparr>"

text \<open>
  The direct enumeration of the elements of a rank that owns all their nodes: the
  three coordinates of every corner, in (element, node, field) order, the triangles
  first and then the triangles of the quadrilaterals.
\<close>

definition enumerate_triangles :: "'v CParallelDataSorter \<Rightarrow> nat \<Rightarrow> 'v list" where
  "enumerate_triangles ds rk =
     concat (map (\<lambda>iElem.
       concat (map (\<lambda>iPoint.
         map (\<lambda>iVar. GetData ds iVar
                (GetElem_Connectivity ds TRIANGLE iElem iPoint - 1 - GetNodeBegin ds rk))
           [0..<3])
         [0..<3]))
       [0..<GetnElem ds TRIANGLE])"

definition direct_enumeration :: "'v CParallelDataSorter \<Rightarrow> nat \<Rightarrow> 'v list" where
  "direct_enumeration ds rk =
     enumerate_triangles ds rk @ enumerate_triangles (quads_as_triangles ds) rk"





subsection \<open>A mesh on one rank\<close>

text \<open>
  The only rank owns the nodes 0 to 5, one triangle on the nodes 0, 1, 2 and one
  quadrilateral on the nodes 1, 2, 4, 3. Field \<open>v\<close> of the node \<open>g\<close> has the value
  \<open>100 * g + v\<close>.
\<close>

definition mesh1_sorter :: "int CParallelDataSorter" where
  "mesh1_sorter =
     \<lparr> GetnElem = (\<lambda>ty. 1),
       GetElem_Connectivity =
         (\<lambda>ty iElem iPoint. case ty of TRIANGLE \<Rightarrow> [1, 2, 3] ! (iElem * 3 + iPoint)
                                     | QUADRILATERAL \<Rightarrow> [2, 3, 5, 4] ! (iElem * 4 + iPoint)),
       FindProcessor = FindOwner [0, 6],
       GetNodeBegin = NodeBegin [0, 6],
       GetData = (\<lambda>iVar iPoint. 100 * int iPoint + int iVar) \<rparr>"

definition mesh1 :: "int CSTLFileWriter list" where
  "mesh1 = new_writers [''x'', ''y'', ''z''] [mesh1_sorter]"

subsection \<open>A mesh on two ranks\<close>

text \<open>
  Rank 0 owns the nodes 0 to 3 and one triangle on the nodes 1, 4, 6; rank 1 owns
  the nodes 4 to 7 and one quadrilateral on the nodes 0, 1, 4, 5. Field \<open>v\<close> of the
  node \<open>g\<close> has the value \<open>100 * g + v\<close>.
\<close>

definition mesh2_sorter0 :: "int CParallelDataSorter" where
  "mesh2_sorter0 =
     \<lparr> GetnElem = (\<lambda>ty. case ty of TRIANGLE \<Rightarrow> 1 | QUADRILATERAL \<Rightarrow> 0),
       GetElem_Connectivity =
         (\<lambda>ty iElem iPoint. case ty of TRIANGLE \<Rightarrow> [2, 5, 7] ! (iElem * 3 + iPoint)
                                     | QUADRILATERAL \<Rightarrow> 1),
       FindProcessor = FindOwner [0, 4, 8],
       GetNodeBegin = NodeBegin [0, 4, 8],
       GetData = (\<lambda>iVar iPoint. 100 * int iPoint + int iVar) \<rparr>"

definition mesh2_sorter1 :: "int CParallelDataSorter" where
  "mesh2_sorter1 =
     \<lparr> GetnElem = (\<lambda>ty. case ty of TRIANGLE \<Rightarrow> 0 | QUADRILATERAL \<Rightarrow> 1),
       GetElem_Connectivity =
         (\<lambda>ty iElem iPoint. case ty of TRIANGLE \<Rightarrow> 1
                                     | QUADRILATERAL \<Rightarrow> [1, 2, 5, 6] ! (iElem * 4 + iPoint)),
       FindProcessor = FindOwner [0, 4, 8],
       GetNodeBegin = NodeBegin [0, 4, 8],
       GetData = (\<lambda>iVar iPoint. 100 * int (4 + iPoint) + int iVar) \<rparr>"

definition mesh2 :: "int CSTLFileWriter list" where
  "mesh2 = new_writers [''x'', ''y'', ''z''] [mesh2_sorter0, mesh2_sorter1]"

subsection \<open>The triangles of a quadrilateral, and a second call\<close>

text \<open>
  The two triangles that the specification assigns to the quadrilateral \<open>iElem\<close> with
  the corners \<open>[A, B, C, D]\<close>, by their nodes: \<open>[A, B, D]\<close> and then \<open>[B, C, D]\<close>.
\<close>

definition split_quadrilateral :: "'v CParallelDataSorter \<Rightarrow> nat \<Rightarrow> nat list list" where
  "split_quadrilateral ds iElem =
     (let A = GetElem_Connectivity ds QUADRILATERAL iElem 0 - 1;
          B = GetElem_Connectivity ds QUADRILATERAL iElem 1 - 1;
          C = GetElem_Connectivity ds QUADRILATERAL iElem 2 - 1;
          D = GetElem_Connectivity ds QUADRILATERAL iElem 3 - 1
      in [[A, B, D], [B, C, D]])"


section \<open>Properties\<close>

subsection \<open>Vectors, loops and buffers\<close>

lemma resize_Nil: "resize n x [] = replicate n x"
  by (simp add: resize_def)

lemma length_resize: "length (resize n x xs) = n"
  by (simp add: resize_def)

lemma fold_insort_insert_set:
  "set (fold (\<lambda>i h. if P i then insort_insert (f i) h else h) is hs)
     = set hs \<union> {f i |i. i \<in> set is \<and> P i}"
  by (induction "is" arbitrary: hs) (auto simp: set_insort_insert)

lemma fold_insort_insert_sorted:
  "sorted hs \<Longrightarrow> sorted (fold (\<lambda>i h. if P i then insort_insert (f i) h else h) is hs)"
  by (induction "is" arbitrary: hs) (auto simp: sorted_insort_insert)

lemma fold_insort_insert_distinct:
  "distinct hs \<Longrightarrow> distinct (fold (\<lambda>i h. if P i then insort_insert (f i) h else h) is hs)"
  by (induction "is" arbitrary: hs) (auto simp: distinct_insort_insert)

lemma length_assign_all: "length (assign_all n f v) = length v"
  unfolding assign_all_def by (induction n) simp_all

lemma assign_all_nth:
  "i < length v \<Longrightarrow> assign_all n f v ! i = (if i < n then f i else v ! i)"
proof (induction n)
  case 0
  then show ?case by (simp add: assign_all_def)
next
  case (Suc n)
  have len: "length (fold (\<lambda>iRank v. v[iRank := f iRank]) [0..<n] v) = length v"
    using length_assign_all [of n f v] by (simp add: assign_all_def)
  from Suc show ?case
    by (auto simp: assign_all_def len nth_list_update less_Suc_eq)
qed

lemma assign_all_eq_map: "length v = n \<Longrightarrow> assign_all n f v = map f [0..<n]"
  by (rule nth_equalityI) (simp_all add: length_assign_all assign_all_nth)

lemma length_fold_count:
  "length (fold (\<lambda>i c. c[g i := Suc (c ! g i)]) is c) = length c"
  by (induction "is" arbitrary: c) simp_all

lemma fold_count_nth:
  "s < length c \<Longrightarrow>
   fold (\<lambda>i c. c[g i := Suc (c ! g i)]) is c ! s = c ! s + length (filter (\<lambda>i. g i = s) is)"
  by (induction "is" arbitrary: c) (auto simp: nth_list_update)

lemma length_displacements: "length (displacements n counts d) = length d"
proof -
  have "length (fold (\<lambda>iRank d. d[iRank := d ! (iRank - 1) + counts ! (iRank - 1)]) is d0) = length d0"
    for "is" d0
    by (induction "is" arbitrary: d0) simp_all
  then show ?thesis by (simp add: displacements_def)
qed

lemma displacements_fold_nth:
  "m < length d \<Longrightarrow> d ! 0 = 0 \<Longrightarrow> r \<le> m \<Longrightarrow>
   fold (\<lambda>iRank d. d[iRank := d ! (iRank - 1) + counts ! (iRank - 1)]) [1..<Suc m] d ! r
     = (\<Sum>j<r. counts ! j)"
proof (induction m arbitrary: r)
  case 0
  then show ?case by simp
next
  case (Suc m)
  let ?F = "\<lambda>k. fold (\<lambda>iRank d. d[iRank := d ! (iRank - 1) + counts ! (iRank - 1)]) [1..<Suc k] d"
  have len: "length (?F m) = length d"
    by (induction m) simp_all
  have IH: "\<And>r. r \<le> m \<Longrightarrow> ?F m ! r = (\<Sum>j<r. counts ! j)"
    using Suc.IH Suc.prems by simp
  have step: "?F (Suc m) = (?F m)[Suc m := ?F m ! m + counts ! m]"
    by simp
  show ?case
  proof (cases "r = Suc m")
    case True
    have "?F (Suc m) ! Suc m = ?F m ! m + counts ! m"
      unfolding step using Suc.prems len by simp
    then show ?thesis using True IH [of m] by simp
  next
    case False
    then have r: "r \<le> m" using Suc.prems by simp
    have "?F (Suc m) ! r = ?F m ! r"
      unfolding step using r by simp
    then show ?thesis using IH [of r] r by simp
  qed
qed

lemma displacements_nth:
  assumes "length d = n" and "r < n"
  shows "displacements n counts d ! r = (\<Sum>j<r. counts ! j)"
proof -
  obtain m where n: "n = Suc m" using assms(2) by (cases n) auto
  show ?thesis
    unfolding displacements_def n
    using assms n by (intro displacements_fold_nth) auto
qed

lemma length_write_at: "length (write_at dst off blk) = length dst"
proof -
  have "length (fold (\<lambda>k d. d[off + k := blk ! k]) is d0) = length d0" for "is" d0
    by (induction "is" arbitrary: d0) simp_all
  then show ?thesis by (simp add: write_at_def)
qed

lemma fold_update_nth:
  "fold (\<lambda>k d. d[off + k := f k]) [0..<m] dst ! j
     = (if off \<le> j \<and> j < off + m \<and> j < length dst then f (j - off) else dst ! j)"
proof (induction m)
  case 0
  then show ?case by auto
next
  case (Suc m)
  have len: "length (fold (\<lambda>k d. d[off + k := f k]) [0..<m] dst) = length dst"
    by (induction m) simp_all
  show ?case
  proof (cases "j = off + m")
    case True
    then show ?thesis using len Suc by (cases "j < length dst") (simp_all add: list_update_beyond)
  next
    case False
    then show ?thesis using Suc by auto
  qed
qed

lemma write_at_nth:
  "write_at dst off blk ! j
     = (if off \<le> j \<and> j < off + length blk \<and> j < length dst then blk ! (j - off) else dst ! j)"
  unfolding write_at_def by (rule fold_update_nth)


lemma write_at_update_Cons: "write_at (b[i := x]) (Suc i) xs = write_at b i (x # xs)"
  by (rule nth_equalityI)
     (auto simp: length_write_at write_at_nth nth_list_update nth_Cons' not_less less_Suc_eq_le)

lemma fold_store:
  "fold store xs st = (write_at (fst st) (snd st) xs, snd st + length xs)"
proof (induction xs arbitrary: st)
  case Nil
  show ?case by (simp add: write_at_def)
next
  case (Cons x xs)
  have "fold store (x # xs) st = fold store xs (store x st)"
    by simp
  also have "\<dots> = (write_at (fst (store x st)) (snd (store x st)) xs, snd (store x st) + length xs)"
    by (rule Cons)
  also have "\<dots> = (write_at (fst st) (snd st) (x # xs), snd st + length (x # xs))"
    by (simp add: store_def write_at_update_Cons)
  finally show ?case .
qed

lemma write_at_append:
  "write_at (write_at buf off xs) (off + length xs) ys = write_at buf off (xs @ ys)"
  by (rule nth_equalityI)
     (auto simp: length_write_at write_at_nth nth_append not_less)

lemma length_concat_upt: "length (concat (map blk [0..<n])) = (\<Sum>j<n. length (blk j))"
  by (induction n) simp_all

lemma sum_lessThan_mono: "r \<le> (n::nat) \<Longrightarrow> (\<Sum>j<r. (f j :: nat)) \<le> (\<Sum>j<n. f j)"
  by (induction n) (auto simp: le_Suc_eq)

lemma nth_concat_upt:
  "r < n \<Longrightarrow> k < length (blk r) \<Longrightarrow>
   concat (map blk [0..<n]) ! ((\<Sum>j<r. length (blk j)) + k) = blk r ! k"
proof (induction n)
  case 0
  then show ?case by simp
next
  case (Suc n)
  show ?case
  proof (cases "r = n")
    case True
    then show ?thesis by (simp add: nth_append length_concat_upt)
  next
    case False
    then have r: "r < n" using Suc.prems by simp
    have "(\<Sum>j<Suc r. length (blk j)) \<le> (\<Sum>j<n. length (blk j))"
      using r by (intro sum_lessThan_mono) simp
    then have "(\<Sum>j<r. length (blk j)) + k < (\<Sum>j<n. length (blk j))"
      using Suc.prems(2) by simp
    then show ?thesis using Suc.IH [OF r Suc.prems(2)]
      by (simp add: nth_append length_concat_upt)
  qed
qed

lemma fold_write_at_concat:
  "fold (\<lambda>s b. write_at b (\<Sum>j<s. length (blk j)) (blk s)) [0..<n] buf
     = write_at buf 0 (concat (map blk [0..<n]))"
proof (induction n)
  case 0
  show ?case by (simp add: write_at_def)
next
  case (Suc n)
  show ?case
    using write_at_append [of buf 0 "concat (map blk [0..<n])" "blk n"]
    by (simp add: Suc length_concat_upt)
qed

lemma fold_write_at_nth:
  assumes "s < n" and "k < length (blk s)" and "(\<Sum>j<n. length (blk j)) \<le> length buf"
  shows "fold (\<lambda>s b. write_at b (\<Sum>j<s. length (blk j)) (blk s)) [0..<n] buf
           ! ((\<Sum>j<s. length (blk j)) + k) = blk s ! k"
proof -
  have "(\<Sum>j<Suc s. length (blk j)) \<le> (\<Sum>j<n. length (blk j))"
    using assms(1) by (intro sum_lessThan_mono) simp
  then have "(\<Sum>j<s. length (blk j)) + k < (\<Sum>j<n. length (blk j))"
    using assms(2) by simp
  then show ?thesis
    using assms by (simp add: fold_write_at_concat write_at_nth length_concat_upt nth_concat_upt)
qed

lemma halo_scan_nodes_upt:
  "halo_scan_nodes hvd displ offset [i0..<i0 + c] id'
     = (if id' \<le> offset \<and> offset < id' + c then Inl (hvd ! (displ + (i0 + (offset - id'))))
        else Inr (id' + c))"
proof (induction c arbitrary: i0 id')
  case 0
  show ?case by simp
next
  case (Suc c)
  have l: "[i0..<i0 + Suc c] = i0 # [Suc i0..<Suc i0 + c]"
    by (simp add: upt_conv_Cons)
  show ?case
  proof (cases "id' = offset")
    case True
    then show ?thesis unfolding l by simp
  next
    case False
    have "halo_scan_nodes hvd displ offset [i0..<i0 + Suc c] id'
            = halo_scan_nodes hvd displ offset [Suc i0..<Suc i0 + c] (Suc id')"
      unfolding l using False by simp
    also have "\<dots> = (if Suc id' \<le> offset \<and> offset < Suc id' + c
                        then Inl (hvd ! (displ + (Suc i0 + (offset - Suc id'))))
                        else Inr (Suc id' + c))"
      by (rule Suc)
    also have "\<dots> = (if id' \<le> offset \<and> offset < id' + Suc c
                        then Inl (hvd ! (displ + (i0 + (offset - id'))))
                        else Inr (id' + Suc c))"
      using False by (auto simp: Suc_diff_Suc)
    finally show ?thesis .
  qed
qed

lemma halo_scan_ranks_found:
  assumes "s < n" and "i < num_nodes_to_receive w ! s" and "a \<le> s"
  shows "halo_scan_ranks w iVar ((\<Sum>j<s. num_nodes_to_receive w ! j) + i) [a..<n]
            (\<Sum>j<a. num_nodes_to_receive w ! j)
          = Some (halo_var_data w !
                   (values_to_receive_displacements w ! s + num_nodes_to_receive w ! s * iVar + i))"
  using assms
proof (induction "s - a" arbitrary: a)
  case 0
  then have a: "a = s" by simp
  have l: "[s..<n] = s # [Suc s..<n]" using assms(1) by (simp add: upt_conv_Cons)
  have "halo_scan_nodes (halo_var_data w)
           (values_to_receive_displacements w ! s + num_nodes_to_receive w ! s * iVar)
           ((\<Sum>j<s. num_nodes_to_receive w ! j) + i) [0..<0 + num_nodes_to_receive w ! s]
           (\<Sum>j<s. num_nodes_to_receive w ! j)
         = Inl (halo_var_data w !
                  (values_to_receive_displacements w ! s + num_nodes_to_receive w ! s * iVar + i))"
    unfolding halo_scan_nodes_upt using assms(2) by simp
  then show ?case
    unfolding a l by simp
next
  case (Suc d)
  then have a: "a < s" by simp
  then have l: "[a..<n] = a # [Suc a..<n]" using assms(1) by (simp add: upt_conv_Cons)
  have "(\<Sum>j<Suc a. num_nodes_to_receive w ! j) \<le> (\<Sum>j<s. num_nodes_to_receive w ! j)"
    using a by (intro sum_lessThan_mono) simp
  then have no: "\<not> ((\<Sum>j<s. num_nodes_to_receive w ! j) + i
                   < (\<Sum>j<a. num_nodes_to_receive w ! j) + num_nodes_to_receive w ! a)"
    by simp
  have IH: "halo_scan_ranks w iVar ((\<Sum>j<s. num_nodes_to_receive w ! j) + i) [Suc a..<n]
               (\<Sum>j<Suc a. num_nodes_to_receive w ! j)
            = Some (halo_var_data w !
                   (values_to_receive_displacements w ! s + num_nodes_to_receive w ! s * iVar + i))"
    using Suc(1) [of "Suc a"] Suc(2) a assms by simp
  have "halo_scan_nodes (halo_var_data w)
           (values_to_receive_displacements w ! a + num_nodes_to_receive w ! a * iVar)
           ((\<Sum>j<s. num_nodes_to_receive w ! j) + i) [0..<0 + num_nodes_to_receive w ! a]
           (\<Sum>j<a. num_nodes_to_receive w ! j)
         = Inr (\<Sum>j<Suc a. num_nodes_to_receive w ! j)"
    unfolding halo_scan_nodes_upt using no by simp
  then show ?case
    unfolding l using IH by simp
qed

lemma halo_scan_ranks_none:
  "\<forall>r\<in>set rs. num_nodes_to_receive w ! r = 0 \<Longrightarrow> halo_scan_ranks w iVar offset rs id' = None"
  by (induction rs arbitrary: id') simp_all

lemma for_loop_Inr:
  "(\<And>i st. i \<in> set is \<Longrightarrow> body i st = Inr (g i st)) \<Longrightarrow> for_loop is body st = Inr (fold g is st)"
  by (induction "is" arbitrary: st) simp_all

subsection \<open>The halo node set\<close>

lemma set_corner_nodes:
  "set (corner_nodes ds ty npoints)
     = {GetElem_Connectivity ds ty e p - 1 |e p. e < GetnElem ds ty \<and> p < npoints}"
  by (fastforce simp: corner_nodes_def)

lemma flat_index_set:
  assumes "0 < npoints"
  shows "{f (e * npoints + p) |e p. e < n \<and> p < npoints} = {f i |i. i < n * (npoints::nat)}"
proof (intro set_eqI iffI)
  fix x assume "x \<in> {f (e * npoints + p) |e p. e < n \<and> p < npoints}"
  then obtain e p where x: "x = f (e * npoints + p)" and e: "e < n" and p: "p < npoints"
    by auto
  have "e * npoints + p < Suc e * npoints" using p by simp
  also have "\<dots> \<le> n * npoints" using e by (intro mult_le_mono1) simp
  finally show "x \<in> {f i |i. i < n * npoints}" using x by auto
next
  fix x assume "x \<in> {f i |i. i < n * npoints}"
  then obtain i where x: "x = f i" and i: "i < n * npoints" by auto
  have "i div npoints < n" using i assms by (simp add: less_mult_imp_div_less)
  moreover have "i mod npoints < npoints" using assms by simp
  moreover have "x = f ((i div npoints) * npoints + i mod npoints)" using x by simp
  ultimately show "x \<in> {f (e * npoints + p) |e p. e < n \<and> p < npoints}"
    by blast
qed

lemma set_insert_halo_nodes:
  assumes "flat_connectivity ds ty npoints" and "0 < npoints"
  shows "set (insert_halo_nodes ds rk ty npoints hs)
           = set hs \<union> {g \<in> set (corner_nodes ds ty npoints). FindProcessor ds g \<noteq> rk}"
proof -
  let ?f = "\<lambda>i. GetElem_Connectivity ds ty 0 i - 1"
  have flat: "GetElem_Connectivity ds ty e p - 1 = ?f (e * npoints + p)"
    if "e < GetnElem ds ty" "p < npoints" for e p
    using assms(1) that by (simp add: flat_connectivity_def)
  have "set (corner_nodes ds ty npoints)
          = {?f (e * npoints + p) |e p. e < GetnElem ds ty \<and> p < npoints}"
    unfolding set_corner_nodes
  proof (intro set_eqI iffI)
    fix x assume "x \<in> {GetElem_Connectivity ds ty e p - 1 |e p. e < GetnElem ds ty \<and> p < npoints}"
    then obtain e p where "x = GetElem_Connectivity ds ty e p - 1" "e < GetnElem ds ty" "p < npoints"
      by blast
    then show "x \<in> {?f (e * npoints + p) |e p. e < GetnElem ds ty \<and> p < npoints}"
      using flat [of e p] by auto
  next
    fix x assume "x \<in> {?f (e * npoints + p) |e p. e < GetnElem ds ty \<and> p < npoints}"
    then obtain e p where "x = ?f (e * npoints + p)" "e < GetnElem ds ty" "p < npoints"
      by blast
    then have "x = GetElem_Connectivity ds ty e p - 1 \<and> e < GetnElem ds ty \<and> p < npoints"
      using flat [of e p] by simp
    then show "x \<in> {GetElem_Connectivity ds ty e p - 1 |e p. e < GetnElem ds ty \<and> p < npoints}"
      by blast
  qed
  also have "\<dots> = {?f i |i. i < GetnElem ds ty * npoints}"
    using assms(2) by (rule flat_index_set)
  finally have c: "set (corner_nodes ds ty npoints) = {?f i |i. i < GetnElem ds ty * npoints}" .
  have "set (insert_halo_nodes ds rk ty npoints hs)
          = set hs \<union> {?f i |i. i \<in> set [0..<GetnElem ds ty * npoints] \<and> FindProcessor ds (?f i) \<noteq> rk}"
    unfolding insert_halo_nodes_def by (rule fold_insort_insert_set)
  also have "\<dots> = set hs \<union> {g \<in> set (corner_nodes ds ty npoints). FindProcessor ds g \<noteq> rk}"
    unfolding c by auto
  finally show ?thesis .
qed

lemma sorted_insert_halo_nodes: "sorted hs \<Longrightarrow> sorted (insert_halo_nodes ds rk ty npoints hs)"
  unfolding insert_halo_nodes_def by (rule fold_insort_insert_sorted)

lemma distinct_insert_halo_nodes: "distinct hs \<Longrightarrow> distinct (insert_halo_nodes ds rk ty npoints hs)"
  unfolding insert_halo_nodes_def by (rule fold_insort_insert_distinct)

lemma sorted_halo_nodes_Reprocess_halo_nodes:
  "sorted_halo_nodes (Reprocess_halo_nodes w)
     = insert_halo_nodes (dataSorter w) (rank w) QUADRILATERAL N_POINTS_QUADRILATERAL
         (insert_halo_nodes (dataSorter w) (rank w) TRIANGLE N_POINTS_TRIANGLE [])"
  by (simp add: Reprocess_halo_nodes_def halo_list_def Let_def)

text \<open>
  Claim C8. After the enumeration of lines 71 to 81, the list \<open>sorted_halo_nodes\<close> of
  a rank holds exactly the global node numbers referenced by the rank's triangles and
  quadrilaterals whose owner (by \<open>FindProcessor\<close>) is not the rank itself, in
  ascending order and without duplicates.
\<close>

theorem halo_node_set_invariant:
  assumes "flat_connectivity (dataSorter w) TRIANGLE N_POINTS_TRIANGLE"
    and "flat_connectivity (dataSorter w) QUADRILATERAL N_POINTS_QUADRILATERAL"
  shows "set (sorted_halo_nodes (Reprocess_halo_nodes w))
           = {g \<in> set (referenced_nodes (dataSorter w)). FindProcessor (dataSorter w) g \<noteq> rank w}
         \<and> sorted (sorted_halo_nodes (Reprocess_halo_nodes w))
         \<and> distinct (sorted_halo_nodes (Reprocess_halo_nodes w))"
proof (intro conjI)
  have t: "0 < N_POINTS_TRIANGLE" and q: "0 < N_POINTS_QUADRILATERAL"
    by (simp_all add: N_POINTS_TRIANGLE_def N_POINTS_QUADRILATERAL_def)
  show "set (sorted_halo_nodes (Reprocess_halo_nodes w))
          = {g \<in> set (referenced_nodes (dataSorter w)). FindProcessor (dataSorter w) g \<noteq> rank w}"
    unfolding sorted_halo_nodes_Reprocess_halo_nodes referenced_nodes_def
      set_insert_halo_nodes [OF assms(2) q] set_insert_halo_nodes [OF assms(1) t]
    by auto
  show "sorted (sorted_halo_nodes (Reprocess_halo_nodes w))"
    unfolding sorted_halo_nodes_Reprocess_halo_nodes
    by (intro sorted_insert_halo_nodes) simp
  show "distinct (sorted_halo_nodes (Reprocess_halo_nodes w))"
    unfolding sorted_halo_nodes_Reprocess_halo_nodes
    by (intro distinct_insert_halo_nodes) simp
qed

lemma flat_mesh2_0: "flat_connectivity mesh2_sorter0 TRIANGLE N_POINTS_TRIANGLE"
  by (simp add: flat_connectivity_def mesh2_sorter0_def)

lemma flat_mesh2_0q: "flat_connectivity mesh2_sorter0 QUADRILATERAL N_POINTS_QUADRILATERAL"
  by (simp add: flat_connectivity_def mesh2_sorter0_def)

theorem halo_node_set_invariant_witness:
  "flat_connectivity (dataSorter (mesh2 ! 0)) TRIANGLE N_POINTS_TRIANGLE
   \<and> flat_connectivity (dataSorter (mesh2 ! 0)) QUADRILATERAL N_POINTS_QUADRILATERAL
   \<and> set (sorted_halo_nodes (Reprocess_halo_nodes (mesh2 ! 0))) = {4, 6}
   \<and> sorted (sorted_halo_nodes (Reprocess_halo_nodes (mesh2 ! 0)))
   \<and> distinct (sorted_halo_nodes (Reprocess_halo_nodes (mesh2 ! 0)))"
proof -
  have ds: "dataSorter (mesh2 ! 0) = mesh2_sorter0" and rk: "rank (mesh2 ! 0) = 0"
    by (simp_all add: mesh2_def new_writers_def new_CSTLFileWriter_def)
  have ref: "{g \<in> set (referenced_nodes mesh2_sorter0). FindProcessor mesh2_sorter0 g \<noteq> 0} = {4, 6}"
    by code_simp
  show ?thesis
    using halo_node_set_invariant [of "mesh2 ! 0"] flat_mesh2_0 flat_mesh2_0q
    unfolding ds rk ref by simp
qed

subsection \<open>Blocks of a list sorted by a key, and the all-to-all exchange\<close>

lemma key_sorted_split:
  "sorted (map f ys) \<Longrightarrow> ys = filter (\<lambda>x. f x < (s::nat)) ys @ filter (\<lambda>x. \<not> f x < s) ys"
proof (induction ys)
  case Nil
  show ?case by simp
next
  case (Cons y ys)
  show ?case
  proof (cases "f y < s")
    case True
    then show ?thesis using Cons by simp
  next
    case False
    then have "\<forall>x\<in>set ys. \<not> f x < s" using Cons.prems by auto
    then have "filter (\<lambda>x. f x < s) ys = []" and "filter (\<lambda>x. \<not> f x < s) ys = ys"
      by (simp_all add: filter_empty_conv filter_id_conv)
    then show ?thesis using False by simp
  qed
qed

lemma length_filter_less_Suc:
  "length (filter (\<lambda>x. f x < Suc s) ys)
     = length (filter (\<lambda>x. f x < s) ys) + length (filter (\<lambda>x. f x = s) ys)"
  by (induction ys) auto

lemma length_filter_less_sum:
  "length (filter (\<lambda>x. f x < (s::nat)) ys) = (\<Sum>j<s. length (filter (\<lambda>x. f x = j) ys))"
  by (induction s) (simp_all add: length_filter_less_Suc)

lemma key_sorted_block:
  assumes "sorted (map f ys)"
  shows "take (length (filter (\<lambda>x. f x = (s::nat)) ys))
           (drop (\<Sum>j<s. length (filter (\<lambda>x. f x = j) ys)) ys)
         = filter (\<lambda>x. f x = s) ys"
proof -
  let ?A = "filter (\<lambda>x. f x < s) ys" and ?B = "filter (\<lambda>x. \<not> f x < s) ys"
  have ys: "ys = ?A @ ?B" using assms by (rule key_sorted_split)
  have "drop (length ?A) ys = drop (length ?A) (?A @ ?B)" using ys by simp
  then have d: "drop (\<Sum>j<s. length (filter (\<lambda>x. f x = j) ys)) ys = ?B"
    by (simp add: length_filter_less_sum [symmetric])
  have "sorted (map f ?B)" using assms by (rule sorted_filter)
  then have "?B = filter (\<lambda>x. f x < Suc s) ?B @ filter (\<lambda>x. \<not> f x < Suc s) ?B"
    by (rule key_sorted_split)
  moreover have "filter (\<lambda>x. f x < Suc s) ?B = filter (\<lambda>x. f x = s) ys"
    by (auto intro: filter_cong)
  ultimately have "?B = filter (\<lambda>x. f x = s) ys @ filter (\<lambda>x. \<not> f x < Suc s) ?B"
    by simp
  then have "take (length (filter (\<lambda>x. f x = s) ys)) ?B = filter (\<lambda>x. f x = s) ys"
    by (metis append_eq_conv_conj)
  then show ?thesis by (simp add: d)
qed

lemma key_sorted_filter_less:
  assumes "sorted (map f ys)"
  shows "concat (map (\<lambda>s. filter (\<lambda>x. f x = s) ys) [0..<n]) = filter (\<lambda>x. f x < (n::nat)) ys"
proof (induction n)
  case 0
  show ?case by simp
next
  case (Suc n)
  let ?C = "filter (\<lambda>x. f x < Suc n) ys"
  have "sorted (map f ?C)" using assms by (rule sorted_filter)
  then have "?C = filter (\<lambda>x. f x < n) ?C @ filter (\<lambda>x. \<not> f x < n) ?C"
    by (rule key_sorted_split)
  moreover have "filter (\<lambda>x. f x < n) ?C = filter (\<lambda>x. f x < n) ys"
    by (auto intro: filter_cong)
  moreover have "filter (\<lambda>x. \<not> f x < n) ?C = filter (\<lambda>x. f x = n) ys"
    by (auto intro: filter_cong)
  ultimately show ?case using Suc by simp
qed

lemma key_sorted_concat:
  assumes "sorted (map f ys)" and "\<forall>x\<in>set ys. f x < n"
  shows "concat (map (\<lambda>s. filter (\<lambda>x. f x = s) ys) [0..<n]) = ys"
  using key_sorted_filter_less [OF assms(1), of n] assms(2) by (simp add: filter_id_conv)

lemma slice_eq_take_drop: "off + n \<le> length buf \<Longrightarrow> slice buf off n = take n (drop off buf)"
  by (rule nth_equalityI) (simp_all add: slice_def)

lemma write_at_Nil: "write_at buf off [] = buf"
  by (simp add: write_at_def)

lemma write_at_all: "length xs = length buf \<Longrightarrow> write_at buf 0 xs = xs"
  by (rule nth_equalityI) (simp_all add: length_write_at write_at_nth)

lemma Alltoallv_concat:
  assumes "length sends = n"
    and "\<And>s. s < n \<Longrightarrow>
           take (recvcounts ! s)
             (slice (fst (sends ! s)) (snd (snd (sends ! s)) ! r) (fst (snd (sends ! s)) ! r)) = blk s"
    and "\<And>s. s < n \<Longrightarrow> rdispls ! s = (\<Sum>j<s. length (blk j))"
  shows "Alltoallv sends r recvbuf recvcounts rdispls = write_at recvbuf 0 (concat (map blk [0..<n]))"
proof -
  have "Alltoallv sends r recvbuf recvcounts rdispls
          = fold (\<lambda>s b. write_at b (\<Sum>j<s. length (blk j)) (blk s)) [0..<n] recvbuf"
    unfolding Alltoallv_def assms(1)
    by (rule fold_cong) (auto simp: assms(2,3) case_prod_beta)
  then show ?thesis by (simp add: fold_write_at_concat)
qed

subsection \<open>The demand phase\<close>

lemma neighbor_partitions_nth:
  "i < nhalo \<Longrightarrow> neighbor_partitions ds shn nhalo ! i = FindProcessor ds (shn ! i)"
  using assign_all_nth [of i "replicate (max 1 nhalo) 0" nhalo "\<lambda>i. FindProcessor ds (shn ! i)"]
  by (simp add: neighbor_partitions_def assign_all_def)

lemma count_nodes_to_receive_eq:
  "count_nodes_to_receive (neighbor_partitions ds H (length H)) (length H) (replicate n 0)
     = map (\<lambda>s. length (filter (\<lambda>g. FindProcessor ds g = s) H)) [0..<n]"
proof (rule nth_equalityI)
  show "length (count_nodes_to_receive (neighbor_partitions ds H (length H)) (length H) (replicate n 0))
          = length (map (\<lambda>s. length (filter (\<lambda>g. FindProcessor ds g = s) H)) [0..<n])"
    by (simp add: count_nodes_to_receive_def length_fold_count)
next
  fix s
  assume "s < length (count_nodes_to_receive (neighbor_partitions ds H (length H)) (length H)
                        (replicate n 0))"
  then have s: "s < n" by (simp add: count_nodes_to_receive_def length_fold_count)
  let ?np = "neighbor_partitions ds H (length H)"
  have "filter (\<lambda>i. ?np ! i = s) [0..<length H]
          = filter (\<lambda>i. FindProcessor ds (H ! i) = s) [0..<length H]"
    by (rule filter_cong) (simp_all add: neighbor_partitions_nth)
  moreover have "map ((!) H) (filter (\<lambda>i. FindProcessor ds (H ! i) = s) [0..<length H])
          = filter (\<lambda>g. FindProcessor ds g = s) (map ((!) H) [0..<length H])"
    by (simp add: filter_map comp_def)
  then have "length (filter (\<lambda>i. FindProcessor ds (H ! i) = s) [0..<length H])
          = length (filter (\<lambda>g. FindProcessor ds g = s) H)"
    by (metis length_map map_nth)
  ultimately show "count_nodes_to_receive ?np (length H) (replicate n 0) ! s
          = map (\<lambda>s. length (filter (\<lambda>g. FindProcessor ds g = s) H)) [0..<n] ! s"
    using s by (simp add: count_nodes_to_receive_def fold_count_nth)
qed

lemma displacements_eq:
  assumes "length d = n" and "length counts = n"
  shows "displacements n counts d = map (\<lambda>r. \<Sum>j<r. counts ! j) [0..<n]"
  by (rule nth_equalityI) (simp_all add: assms length_displacements displacements_nth)

lemma sum_nth_map_upt: "r \<le> n \<Longrightarrow> (\<Sum>j<r. map c [0..<n] ! j) = (\<Sum>j<r. c j)"
  by (rule sum.cong) auto

lemma new_writers_nth:
  "r < length sorters \<Longrightarrow>
   new_writers fnames sorters ! r = new_CSTLFileWriter fnames (length sorters) r (sorters ! r)"
  by (simp add: new_writers_def)

lemma new_CSTLFileWriter_sel [simp]:
  "rank (new_CSTLFileWriter fnames n r ds) = r"
    "size_mpi (new_CSTLFileWriter fnames n r ds) = n"
    "fieldnames (new_CSTLFileWriter fnames n r ds) = fnames"
    "dataSorter (new_CSTLFileWriter fnames n r ds) = ds"
    "halo_nodes (new_CSTLFileWriter fnames n r ds) = []"
    "sorted_halo_nodes (new_CSTLFileWriter fnames n r ds) = []"
    "num_halo_nodes (new_CSTLFileWriter fnames n r ds) = 0"
    "num_nodes_to_receive (new_CSTLFileWriter fnames n r ds) = []"
    "num_nodes_to_send (new_CSTLFileWriter fnames n r ds) = []"
    "nodes_to_send_displacements (new_CSTLFileWriter fnames n r ds) = []"
    "nodes_to_receive_displacements (new_CSTLFileWriter fnames n r ds) = []"
    "nodes_to_send (new_CSTLFileWriter fnames n r ds) = []"
    "data_to_send (new_CSTLFileWriter fnames n r ds) = []"
    "halo_var_data (new_CSTLFileWriter fnames n r ds) = []"
    "num_values_to_send (new_CSTLFileWriter fnames n r ds) = []"
    "values_to_send_displacements (new_CSTLFileWriter fnames n r ds) = []"
    "num_values_to_receive (new_CSTLFileWriter fnames n r ds) = []"
    "values_to_receive_displacements (new_CSTLFileWriter fnames n r ds) = []"
    "MaxLocalTriaAll (new_CSTLFileWriter fnames n r ds) = 0"
    "Buffer_Recv_nTriaAll (new_CSTLFileWriter fnames n r ds) = []"
    "bufD_Recv (new_CSTLFileWriter fnames n r ds) = []"
  by (simp_all add: new_CSTLFileWriter_def)

lemma Reprocess_halo_nodes_new:
  "Reprocess_halo_nodes (new_CSTLFileWriter fnames n r ds)
     = (new_CSTLFileWriter fnames n r ds)
        \<lparr> halo_nodes := halo_list ds r,
          sorted_halo_nodes := halo_list ds r,
          num_halo_nodes := length (halo_list ds r),
          num_nodes_to_receive :=
            map (\<lambda>s. length (filter (\<lambda>g. FindProcessor ds g = s) (halo_list ds r))) [0..<n],
          values_to_receive_displacements := replicate n 0,
          num_nodes_to_send := replicate n 0 \<rparr>"
  by (simp add: Reprocess_halo_nodes_def Let_def new_CSTLFileWriter_def resize_Nil
        count_nodes_to_receive_eq)

lemma demand_phase_nth:
  assumes "r < length sorters"
  shows "demand_phase (new_writers fnames sorters) ! r
     = (new_CSTLFileWriter fnames (length sorters) r (sorters ! r))
        \<lparr> halo_nodes := halo_list (sorters ! r) r,
          sorted_halo_nodes :=
            (if halo_list (sorters ! r) r = [] then [0] else halo_list (sorters ! r) r),
          num_halo_nodes := length (halo_list (sorters ! r) r),
          num_nodes_to_receive := map (\<lambda>s. length (requested sorters r s)) [0..<length sorters],
          num_nodes_to_send := map (\<lambda>q. length (requested sorters q r)) [0..<length sorters],
          nodes_to_send_displacements :=
            map (\<lambda>q. \<Sum>j<q. length (requested sorters j r)) [0..<length sorters],
          nodes_to_receive_displacements :=
            map (\<lambda>s. \<Sum>j<s. length (requested sorters r j)) [0..<length sorters],
          nodes_to_send := replicate (max 1 (\<Sum>q<length sorters. length (requested sorters q r))) 0,
          values_to_receive_displacements := replicate (length sorters) 0 \<rparr>"
proof -
  let ?n = "length sorters"
  obtain m where n: "?n = Suc m" using assms by (cases ?n) auto
  have a2a: "Alltoall (map num_nodes_to_receive (map Reprocess_halo_nodes (new_writers fnames sorters))) r
               = map (\<lambda>q. length (requested sorters q r)) [0..<?n]"
    using assms
    by (simp add: Alltoall_def new_writers_def Reprocess_halo_nodes_new requested_def)
  have tot: "(\<Sum>j<m. length (requested sorters j r)) + length (requested sorters m r)
               = (\<Sum>q<?n. length (requested sorters q r))"
    by (simp add: n)
  have d1: "displacements ?n (map (\<lambda>q. length (requested sorters q r)) [0..<?n]) (replicate ?n 0)
              = map (\<lambda>q. \<Sum>j<q. length (requested sorters j r)) [0..<?n]"
    by (simp add: displacements_eq sum_nth_map_upt)
  have d2: "displacements ?n (map (\<lambda>s. length (filter (\<lambda>g. FindProcessor (sorters ! r) g = s)
                                         (halo_list (sorters ! r) r))) [0..<?n]) (replicate ?n 0)
              = map (\<lambda>s. \<Sum>j<s. length (requested sorters r j)) [0..<?n]"
    by (simp add: displacements_eq sum_nth_map_upt requested_def)
  have last: "map (\<lambda>q. \<Sum>j<q. length (requested sorters j r)) [0..<?n] ! (?n - 1)
                + map (\<lambda>q. length (requested sorters q r)) [0..<?n] ! (?n - 1)
              = (\<Sum>q<?n. length (requested sorters q r))"
    using tot by (simp add: n nth_append del: upt_Suc)
  have len: "length (new_writers fnames sorters) = ?n"
    by (simp add: new_writers_def)
  have rk: "rank (Reprocess_halo_nodes (new_writers fnames sorters ! r)) = r"
    using assms by (simp add: new_writers_nth Reprocess_halo_nodes_new)
  have "demand_phase (new_writers fnames sorters) ! r
          = Reprocess_displacements
              ((Reprocess_halo_nodes (new_writers fnames sorters ! r))
                 \<lparr> num_nodes_to_send :=
                      Alltoall (map num_nodes_to_receive
                                  (map Reprocess_halo_nodes (new_writers fnames sorters)))
                        (rank (Reprocess_halo_nodes (new_writers fnames sorters ! r))) \<rparr>)"
    unfolding demand_phase_def Let_def using assms len by (simp del: map_map)
  also have "\<dots> = Reprocess_displacements
              ((Reprocess_halo_nodes (new_writers fnames sorters ! r))
                 \<lparr> num_nodes_to_send := map (\<lambda>q. length (requested sorters q r)) [0..<?n] \<rparr>)"
    unfolding rk a2a ..
  also have "\<dots> = (new_CSTLFileWriter fnames (length sorters) r (sorters ! r))
        \<lparr> halo_nodes := halo_list (sorters ! r) r,
          sorted_halo_nodes :=
            (if halo_list (sorters ! r) r = [] then [0] else halo_list (sorters ! r) r),
          num_halo_nodes := length (halo_list (sorters ! r) r),
          num_nodes_to_receive := map (\<lambda>s. length (requested sorters r s)) [0..<length sorters],
          num_nodes_to_send := map (\<lambda>q. length (requested sorters q r)) [0..<length sorters],
          nodes_to_send_displacements :=
            map (\<lambda>q. \<Sum>j<q. length (requested sorters j r)) [0..<length sorters],
          nodes_to_receive_displacements :=
            map (\<lambda>s. \<Sum>j<s. length (requested sorters r j)) [0..<length sorters],
          nodes_to_send := replicate (max 1 (\<Sum>q<length sorters. length (requested sorters q r))) 0,
          values_to_receive_displacements := replicate (length sorters) 0 \<rparr>"
    using assms
    by (simp add: new_writers_nth Reprocess_halo_nodes_new Reprocess_displacements_def Let_def
          total_num_nodes_to_send_def resize_Nil d1 d2 last)
       (simp add: new_CSTLFileWriter_def requested_def n)
  finally show ?thesis .
qed

subsection \<open>The request phase\<close>

lemma length_demand_phase: "length (demand_phase ws) = length ws"
  by (simp add: demand_phase_def Let_def)

lemma length_request_phase: "length (request_phase ws) = length ws"
  by (simp add: request_phase_def)

lemma length_data_phase: "length (data_phase ws) = length ws"
  by (simp add: data_phase_def)

lemma fold_concat_fold: "fold f (concat xss) st = fold (fold f) xss st"
  by (induction xss arbitrary: st) simp_all

lemma fold_concat_fold_fun: "fold f (concat xss) = fold (fold f) xss"
  by (rule ext) (rule fold_concat_fold)

lemma pack_data_to_send_eq:
  "pack_data_to_send w st =
     fold store
       (concat (map (\<lambda>iRank.
          concat (map (\<lambda>iVar.
            map (\<lambda>iNode. GetData (dataSorter w) iVar
                   (nodes_to_send w ! (nodes_to_send_displacements w ! iRank + iNode)
                      - GetNodeBegin (dataSorter w) (rank w)))
              [0..<num_nodes_to_send w ! iRank])
            [0..<length (fieldnames w)]))
          [0..<size_mpi w])) st"
  by (simp add: pack_data_to_send_def fold_concat_fold_fun fold_map comp_def)


lemma length_packed_block: "length (packed_block ds rk nf nodes) = nf * length nodes"
  by (simp add: packed_block_def length_concat_upt)

lemma packed_block_nth:
  assumes "v < nf" and "k < length nodes"
  shows "packed_block ds rk nf nodes ! (v * length nodes + k)
           = GetData ds v (nodes ! k - GetNodeBegin ds rk)"
proof -
  let ?B = "\<lambda>iVar. map (\<lambda>g. GetData ds iVar (g - GetNodeBegin ds rk)) nodes"
  have "concat (map ?B [0..<nf]) ! ((\<Sum>j<v. length (?B j)) + k) = ?B v ! k"
    using assms by (intro nth_concat_upt) simp_all
  then show ?thesis using assms by (simp add: packed_block_def)
qed

lemma write_at_concat_nth:
  assumes "r < n" and "k < length (B r)" and "(\<Sum>j<n. length (B j)) \<le> length buf"
  shows "write_at buf 0 (concat (map B [0..<n])) ! ((\<Sum>j<r. length (B j)) + k) = B r ! k"
proof -
  have "(\<Sum>j<Suc r. length (B j)) \<le> (\<Sum>j<n. length (B j))"
    using assms(1) by (intro sum_lessThan_mono) simp
  then have "(\<Sum>j<r. length (B j)) + k < (\<Sum>j<n. length (B j))"
    using assms(2) by simp
  then show ?thesis
    using assms by (simp add: write_at_nth length_concat_upt nth_concat_upt)
qed

lemma slice_write_at_concat:
  assumes "r < n" and "(\<Sum>j<n. length (B j)) \<le> length buf"
  shows "slice (write_at buf 0 (concat (map B [0..<n]))) (\<Sum>j<r. length (B j)) (length (B r)) = B r"
  by (rule nth_equalityI) (simp_all add: slice_def write_at_concat_nth assms)

lemma sum_requested_le:
  "(\<Sum>j<m. length (requested sorters q j)) \<le> length (halo_list (sorters ! q) q)"
  unfolding requested_def length_filter_less_sum [symmetric] by (rule length_filter_le)

lemma slice_requested:
  assumes "sorted (map (FindProcessor (sorters ! q)) (halo_list (sorters ! q) q))"
  shows "slice (if halo_list (sorters ! q) q = [] then [0] else halo_list (sorters ! q) q)
           (\<Sum>j<r. length (requested sorters q j)) (length (requested sorters q r))
         = requested sorters q r"
proof (cases "halo_list (sorters ! q) q = []")
  case True
  then show ?thesis by (simp add: requested_def slice_def)
next
  case False
  have "(\<Sum>j<Suc r. length (requested sorters q j)) \<le> length (halo_list (sorters ! q) q)"
    by (rule sum_requested_le)
  then have "slice (halo_list (sorters ! q) q)
               (\<Sum>j<r. length (requested sorters q j)) (length (requested sorters q r))
             = take (length (requested sorters q r))
                 (drop (\<Sum>j<r. length (requested sorters q j)) (halo_list (sorters ! q) q))"
    by (intro slice_eq_take_drop) simp
  also have "\<dots> = requested sorters q r"
    unfolding requested_def using assms by (rule key_sorted_block)
  finally show ?thesis using False by simp
qed

lemma packed_blocks_cong:
  assumes "\<And>q k. q < n \<Longrightarrow> k < length (req q) \<Longrightarrow> N ! (D q + k) = req q ! k"
  shows "concat (map (\<lambda>iRank.
            concat (map (\<lambda>iVar.
              map (\<lambda>iNode. GetData ds iVar (N ! (D iRank + iNode) - GetNodeBegin ds rk))
                [0..<length (req iRank)])
              [0..<nf]))
            [0..<n])
         = concat (map (\<lambda>q. packed_block ds rk nf (req q)) [0..<n])"
proof -
  have "map (\<lambda>iNode. GetData ds iVar (N ! (D q + iNode) - GetNodeBegin ds rk)) [0..<length (req q)]
          = map (\<lambda>g. GetData ds iVar (g - GetNodeBegin ds rk)) (req q)"
    if "q < n" for q iVar
    using assms [OF that] by (intro nth_equalityI) simp_all
  then have "concat (map (\<lambda>iVar.
              map (\<lambda>iNode. GetData ds iVar (N ! (D q + iNode) - GetNodeBegin ds rk))
                [0..<length (req q)]) [0..<nf])
          = packed_block ds rk nf (req q)"
    if "q < n" for q
    using that by (simp add: packed_block_def)
  then show ?thesis
    by (intro arg_cong [where f = concat] map_cong [OF refl]) simp
qed

lemma request_Alltoallv:
  assumes r: "r < length sorters"
    and key: "\<And>q. q < length sorters \<Longrightarrow>
                sorted (map (FindProcessor (sorters ! q)) (halo_list (sorters ! q) q))"
  shows "Alltoallv
           (map (\<lambda>u. (sorted_halo_nodes u, num_nodes_to_receive u, nodes_to_receive_displacements u))
              (demand_phase (new_writers fnames sorters)))
           r buf
           (map (\<lambda>q. length (requested sorters q r)) [0..<length sorters])
           (map (\<lambda>q. \<Sum>j<q. length (requested sorters j r)) [0..<length sorters])
         = write_at buf 0 (concat (map (\<lambda>q. requested sorters q r) [0..<length sorters]))"
proof (rule Alltoallv_concat)
  show "length (map (\<lambda>u. (sorted_halo_nodes u, num_nodes_to_receive u, nodes_to_receive_displacements u))
              (demand_phase (new_writers fnames sorters))) = length sorters"
    by (simp add: length_demand_phase new_writers_def)
next
  fix q assume q: "q < length sorters"
  then show "map (\<lambda>q. \<Sum>j<q. length (requested sorters j r)) [0..<length sorters] ! q
               = (\<Sum>j<q. length (requested sorters j r))"
    by simp
next
  fix q assume q: "q < length sorters"
  have lenW: "q < length (demand_phase (new_writers fnames sorters))"
    using q by (simp add: length_demand_phase new_writers_def)
  show "take (map (\<lambda>q. length (requested sorters q r)) [0..<length sorters] ! q)
          (slice (fst (map (\<lambda>u. (sorted_halo_nodes u, num_nodes_to_receive u,
                                  nodes_to_receive_displacements u))
                         (demand_phase (new_writers fnames sorters)) ! q))
             (snd (snd (map (\<lambda>u. (sorted_halo_nodes u, num_nodes_to_receive u,
                                   nodes_to_receive_displacements u))
                         (demand_phase (new_writers fnames sorters)) ! q)) ! r)
             (fst (snd (map (\<lambda>u. (sorted_halo_nodes u, num_nodes_to_receive u,
                                   nodes_to_receive_displacements u))
                         (demand_phase (new_writers fnames sorters)) ! q)) ! r))
        = requested sorters q r"
    using q r lenW by (simp add: demand_phase_nth slice_requested [OF key])
qed

lemma length_new_writers: "length (new_writers fnames sorters) = length sorters"
  by (simp add: new_writers_def)

lemma request_phase_nth:
  assumes r: "r < length sorters"
    and key: "\<And>q. q < length sorters \<Longrightarrow>
                sorted (map (FindProcessor (sorters ! q)) (halo_list (sorters ! q) q))"
  shows "request_phase (demand_phase (new_writers fnames sorters)) ! r
     = (demand_phase (new_writers fnames sorters) ! r)
        \<lparr> nodes_to_send :=
            write_at (replicate (max 1 (\<Sum>q<length sorters. length (requested sorters q r))) 0) 0
              (concat (map (\<lambda>q. requested sorters q r) [0..<length sorters])),
          data_to_send :=
            write_at
              (replicate (max 1 ((\<Sum>q<length sorters. length (requested sorters q r))
                                   * length fnames)) 0) 0
              (concat (map (\<lambda>q. packed_block (sorters ! r) r (length fnames) (requested sorters q r))
                         [0..<length sorters])),
          halo_var_data := replicate (max 1 (length fnames * length (halo_list (sorters ! r) r))) 0,
          num_values_to_send :=
            map (\<lambda>q. length (requested sorters q r) * length fnames) [0..<length sorters],
          values_to_send_displacements :=
            map (\<lambda>q. (\<Sum>j<q. length (requested sorters j r)) * length fnames) [0..<length sorters],
          num_values_to_receive :=
            map (\<lambda>s. length (requested sorters r s) * length fnames) [0..<length sorters],
          values_to_receive_displacements :=
            map (\<lambda>s. (\<Sum>j<s. length (requested sorters r j)) * length fnames) [0..<length sorters] \<rparr>"
proof -
  let ?n = "length sorters" and ?nf = "length fnames"
  let ?W = "demand_phase (new_writers fnames sorters)"
  let ?T = "\<Sum>q<?n. length (requested sorters q r)"
  let ?N = "write_at (replicate (max 1 ?T) 0) 0 (concat (map (\<lambda>q. requested sorters q r) [0..<?n]))"
  obtain m where n: "?n = Suc m" using r by (cases ?n) auto
  have lenW: "length ?W = ?n"
    by (simp add: length_demand_phase length_new_writers)
  have step: "request_phase ?W ! r
          = Reprocess_pack
              ((?W ! r)\<lparr> nodes_to_send :=
                   Alltoallv
                     (map (\<lambda>u. (sorted_halo_nodes u, num_nodes_to_receive u,
                                nodes_to_receive_displacements u)) ?W)
                     (rank (?W ! r)) (nodes_to_send (?W ! r)) (num_nodes_to_send (?W ! r))
                     (nodes_to_send_displacements (?W ! r)) \<rparr>)"
    unfolding request_phase_def using r lenW by simp
  have a2av: "Alltoallv
                (map (\<lambda>u. (sorted_halo_nodes u, num_nodes_to_receive u,
                           nodes_to_receive_displacements u)) ?W)
                (rank (?W ! r)) (nodes_to_send (?W ! r)) (num_nodes_to_send (?W ! r))
                (nodes_to_send_displacements (?W ! r)) = ?N"
    using r by (simp add: demand_phase_nth request_Alltoallv [OF r key])
  have Nnth: "?N ! ((\<Sum>j<q. length (requested sorters j r)) + k) = requested sorters q r ! k"
    if "q < ?n" "k < length (requested sorters q r)" for q k
    using that by (intro write_at_concat_nth) simp_all
  have blocks: "concat (map (\<lambda>iRank.
            concat (map (\<lambda>iVar.
              map (\<lambda>iNode. GetData (sorters ! r) iVar
                     (?N ! ((\<Sum>j<iRank. length (requested sorters j r)) + iNode)
                        - GetNodeBegin (sorters ! r) r))
                [0..<length (requested sorters iRank r)])
              [0..<?nf]))
            [0..<?n])
         = concat (map (\<lambda>q. packed_block (sorters ! r) r ?nf (requested sorters q r)) [0..<?n])"
    by (rule packed_blocks_cong) (rule Nnth)
  have pack: "fst (pack_data_to_send ((?W ! r)\<lparr> nodes_to_send := ?N \<rparr>) (buf, 0))
                = write_at buf 0
                    (concat (map (\<lambda>q. packed_block (sorters ! r) r ?nf (requested sorters q r))
                               [0..<?n]))" for buf
  proof -
    have "concat (map (\<lambda>iRank.
            concat (map (\<lambda>iVar.
              map (\<lambda>iNode. GetData (sorters ! r) iVar
                     (?N ! (map (\<lambda>q. \<Sum>j<q. length (requested sorters j r)) [0..<?n] ! iRank + iNode)
                        - GetNodeBegin (sorters ! r) r))
                [0..<map (\<lambda>q. length (requested sorters q r)) [0..<?n] ! iRank])
              [0..<?nf]))
            [0..<?n])
         = concat (map (\<lambda>iRank.
            concat (map (\<lambda>iVar.
              map (\<lambda>iNode. GetData (sorters ! r) iVar
                     (?N ! ((\<Sum>j<iRank. length (requested sorters j r)) + iNode)
                        - GetNodeBegin (sorters ! r) r))
                [0..<length (requested sorters iRank r)])
              [0..<?nf]))
            [0..<?n])"
      by (intro arg_cong [where f = concat] map_cong [OF refl]) simp
    then show ?thesis
      using r blocks by (simp add: pack_data_to_send_eq fold_store demand_phase_nth)
  qed
  have tot: "total_num_nodes_to_send ((?W ! r)\<lparr> nodes_to_send := ?N \<rparr>) = ?T"
    using r by (simp add: total_num_nodes_to_send_def demand_phase_nth n nth_append del: upt_Suc)
  show ?thesis
    unfolding step a2av Reprocess_pack_def Let_def pack tot
    using r
    by (simp add: demand_phase_nth resize_Nil assign_all_eq_map length_resize)
qed

subsection \<open>The data phase\<close>

lemma sum_length_packed_block:
  "(\<Sum>j<m. length (packed_block (ds j) (rk j) nf (nodes j))) = (\<Sum>j<m. length (nodes j)) * nf"
  by (simp add: length_packed_block sum_distrib_left [symmetric] mult.commute)

lemma data_Alltoallv:
  assumes r: "r < length sorters"
    and key: "\<And>q. q < length sorters \<Longrightarrow>
                sorted (map (FindProcessor (sorters ! q)) (halo_list (sorters ! q) q))"
  shows "Alltoallv
           (map (\<lambda>u. (data_to_send u, num_values_to_send u, values_to_send_displacements u))
              (request_phase (demand_phase (new_writers fnames sorters))))
           r buf
           (map (\<lambda>s. length (requested sorters r s) * length fnames) [0..<length sorters])
           (map (\<lambda>s. (\<Sum>j<s. length (requested sorters r j)) * length fnames) [0..<length sorters])
         = write_at buf 0
             (concat (map (\<lambda>s. packed_block (sorters ! s) s (length fnames) (requested sorters r s))
                        [0..<length sorters]))"
proof (rule Alltoallv_concat)
  show "length (map (\<lambda>u. (data_to_send u, num_values_to_send u, values_to_send_displacements u))
              (request_phase (demand_phase (new_writers fnames sorters)))) = length sorters"
    by (simp add: length_request_phase length_demand_phase length_new_writers)
next
  fix s assume s: "s < length sorters"
  then show "map (\<lambda>s. (\<Sum>j<s. length (requested sorters r j)) * length fnames) [0..<length sorters] ! s
               = (\<Sum>j<s. length (packed_block (sorters ! j) j (length fnames) (requested sorters r j)))"
    by (simp add: sum_length_packed_block)
next
  fix s assume s: "s < length sorters"
  let ?W = "request_phase (demand_phase (new_writers fnames sorters))"
  let ?B = "\<lambda>q. packed_block (sorters ! s) s (length fnames) (requested sorters q s)"
  let ?buf = "replicate (max 1 ((\<Sum>q<length sorters. length (requested sorters q s)) * length fnames)) 0"
  have lenW: "s < length ?W"
    using s by (simp add: length_request_phase length_demand_phase length_new_writers)
  have "slice (write_at ?buf 0 (concat (map ?B [0..<length sorters])))
           (\<Sum>j<r. length (?B j)) (length (?B r)) = ?B r"
    using r by (intro slice_write_at_concat) (simp_all add: sum_length_packed_block)
  then have sl: "slice (write_at ?buf 0 (concat (map ?B [0..<length sorters])))
           ((\<Sum>j<r. length (requested sorters j s)) * length fnames)
           (length (requested sorters r s) * length fnames) = ?B r"
    by (simp add: length_packed_block sum_distrib_left mult.commute)
  show "take (map (\<lambda>s. length (requested sorters r s) * length fnames) [0..<length sorters] ! s)
          (slice (fst (map (\<lambda>u. (data_to_send u, num_values_to_send u,
                                  values_to_send_displacements u)) ?W ! s))
             (snd (snd (map (\<lambda>u. (data_to_send u, num_values_to_send u,
                                   values_to_send_displacements u)) ?W ! s)) ! r)
             (fst (snd (map (\<lambda>u. (data_to_send u, num_values_to_send u,
                                   values_to_send_displacements u)) ?W ! s)) ! r))
        = packed_block (sorters ! s) s (length fnames) (requested sorters r s)"
    using s r lenW sl
    by (simp add: request_phase_nth [OF s key] length_packed_block mult.commute)
qed

lemma ReprocessElementConnectivity_nth:
  assumes r: "r < length sorters"
    and key: "\<And>q. q < length sorters \<Longrightarrow>
                sorted (map (FindProcessor (sorters ! q)) (halo_list (sorters ! q) q))"
  shows "ReprocessElementConnectivity (new_writers fnames sorters) ! r
     = (request_phase (demand_phase (new_writers fnames sorters)) ! r)
        \<lparr> halo_var_data :=
            write_at (replicate (max 1 (length fnames * length (halo_list (sorters ! r) r))) 0) 0
              (concat (map (\<lambda>s. packed_block (sorters ! s) s (length fnames) (requested sorters r s))
                         [0..<length sorters])) \<rparr>"
proof -
  let ?W = "request_phase (demand_phase (new_writers fnames sorters))"
  have lenW: "length ?W = length sorters"
    by (simp add: length_request_phase length_demand_phase length_new_writers)
  have "ReprocessElementConnectivity (new_writers fnames sorters) ! r
          = (?W ! r)\<lparr> halo_var_data :=
               Alltoallv
                 (map (\<lambda>u. (data_to_send u, num_values_to_send u, values_to_send_displacements u)) ?W)
                 (rank (?W ! r)) (halo_var_data (?W ! r)) (num_values_to_receive (?W ! r))
                 (values_to_receive_displacements (?W ! r)) \<rparr>"
    unfolding ReprocessElementConnectivity_def data_phase_def using r lenW by simp
  then show ?thesis
    using r
    by (simp add: request_phase_nth [OF r key] demand_phase_nth data_Alltoallv [OF r key])
qed

subsection \<open>Halo lookups after the exchange\<close>

lemma set_halo_list:
  assumes "flat_connectivity ds TRIANGLE N_POINTS_TRIANGLE"
    and "flat_connectivity ds QUADRILATERAL N_POINTS_QUADRILATERAL"
  shows "set (halo_list ds rk) = {g \<in> set (referenced_nodes ds). FindProcessor ds g \<noteq> rk}"
proof -
  have t: "0 < N_POINTS_TRIANGLE" and q: "0 < N_POINTS_QUADRILATERAL"
    by (simp_all add: N_POINTS_TRIANGLE_def N_POINTS_QUADRILATERAL_def)
  show ?thesis
    unfolding halo_list_def referenced_nodes_def
      set_insert_halo_nodes [OF assms(2) q] set_insert_halo_nodes [OF assms(1) t]
    by auto
qed

lemma sorted_halo_list: "sorted (halo_list ds rk)"
  unfolding halo_list_def by (intro sorted_insert_halo_nodes) simp

lemma distinct_halo_list: "distinct (halo_list ds rk)"
  unfolding halo_list_def by (intro distinct_insert_halo_nodes) simp

lemma sorted_map_mono_on:
  assumes "sorted xs" and "\<And>x y. x \<in> set xs \<Longrightarrow> y \<in> set xs \<Longrightarrow> x \<le> y \<Longrightarrow> f x \<le> (f y :: nat)"
  shows "sorted (map f xs)"
  unfolding sorted_map using assms(1)
  by (rule sorted_wrt_mono_rel [rotated]) (rule assms(2))

lemma valid_mesh_rank:
  assumes "valid_mesh fnames sorters" and "r < length sorters"
  shows "flat_connectivity (sorters ! r) TRIANGLE N_POINTS_TRIANGLE"
    and "flat_connectivity (sorters ! r) QUADRILATERAL N_POINTS_QUADRILATERAL"
    and "\<And>g. g \<in> set (referenced_nodes (sorters ! r)) \<Longrightarrow>
           FindProcessor (sorters ! r) g < length sorters"
    and "\<And>g g'. g \<in> set (referenced_nodes (sorters ! r)) \<Longrightarrow>
           g' \<in> set (referenced_nodes (sorters ! r)) \<Longrightarrow> g \<le> g' \<Longrightarrow>
           FindProcessor (sorters ! r) g \<le> FindProcessor (sorters ! r) g'"
    and "\<And>s. s < length sorters \<Longrightarrow> GetNodeBegin (sorters ! r) s = GetNodeBegin (sorters ! s) s"
proof -
  have r: "r \<in> set [0..<length sorters]" using assms(2) by simp
  have s: "s \<in> set [0..<length sorters]" if "s < length sorters" for s using that by simp
  show "flat_connectivity (sorters ! r) TRIANGLE N_POINTS_TRIANGLE"
    and "flat_connectivity (sorters ! r) QUADRILATERAL N_POINTS_QUADRILATERAL"
    using assms(1) r unfolding valid_mesh_def by blast+
  show "FindProcessor (sorters ! r) g < length sorters"
    if "g \<in> set (referenced_nodes (sorters ! r))" for g
    using assms(1) r that unfolding valid_mesh_def by blast
  show "FindProcessor (sorters ! r) g \<le> FindProcessor (sorters ! r) g'"
    if "g \<in> set (referenced_nodes (sorters ! r))" "g' \<in> set (referenced_nodes (sorters ! r))"
      "g \<le> g'" for g g'
    using assms(1) r that unfolding valid_mesh_def by blast
  show "GetNodeBegin (sorters ! r) s = GetNodeBegin (sorters ! s) s" if "s < length sorters" for s
    using assms(1) r s [OF that] unfolding valid_mesh_def by blast
qed

lemma valid_mesh_fields: "valid_mesh fnames sorters \<Longrightarrow> 3 \<le> length fnames"
  unfolding valid_mesh_def by blast

lemma valid_mesh_key_sorted:
  assumes "valid_mesh fnames sorters" and "q < length sorters"
  shows "sorted (map (FindProcessor (sorters ! q)) (halo_list (sorters ! q) q))"
proof (rule sorted_map_mono_on)
  show "sorted (halo_list (sorters ! q) q)" by (rule sorted_halo_list)
next
  note vr = valid_mesh_rank [OF assms]
  fix x y
  assume "x \<in> set (halo_list (sorters ! q) q)" "y \<in> set (halo_list (sorters ! q) q)" "x \<le> y"
  then show "FindProcessor (sorters ! q) x \<le> FindProcessor (sorters ! q) y"
    by (intro vr(4)) (simp_all add: set_halo_list [OF vr(1,2)])
qed

lemma lower_bound_nth:
  assumes "sorted xs" and "distinct xs" and "p < length xs"
  shows "lower_bound xs (xs ! p) = p"
proof -
  have s: "sorted_wrt (<) xs" using assms by (simp add: strict_sorted_iff)
  have "takeWhile (\<lambda>x. x < xs ! p) xs = take p xs"
  proof (rule takeWhile_eq_take_P_nth)
    fix i assume "i < p" "i < length xs"
    then show "xs ! i < xs ! p" using s assms(3) by (simp add: sorted_wrt_iff_nth_less)
  next
    show "\<not> xs ! p < xs ! p" by simp
  qed
  then show ?thesis using assms(3) by (simp add: lower_bound_def)
qed

lemma requested_nth:
  assumes "sorted (map (FindProcessor (sorters ! r)) (halo_list (sorters ! r) r))"
    and "k < length (requested sorters r s)"
  shows "halo_list (sorters ! r) r ! ((\<Sum>j<s. length (requested sorters r j)) + k)
           = requested sorters r s ! k"
    and "(\<Sum>j<s. length (requested sorters r j)) + k < length (halo_list (sorters ! r) r)"
proof -
  let ?H = "halo_list (sorters ! r) r"
  have le: "(\<Sum>j<Suc s. length (requested sorters r j)) \<le> length ?H"
    by (rule sum_requested_le)
  then show lt: "(\<Sum>j<s. length (requested sorters r j)) + k < length ?H"
    using assms(2) by simp
  have "take (length (requested sorters r s)) (drop (\<Sum>j<s. length (requested sorters r j)) ?H)
          = requested sorters r s"
    unfolding requested_def using assms(1) by (rule key_sorted_block)
  then have "requested sorters r s ! k
          = take (length (requested sorters r s)) (drop (\<Sum>j<s. length (requested sorters r j)) ?H) ! k"
    by simp
  also have "\<dots> = ?H ! ((\<Sum>j<s. length (requested sorters r j)) + k)"
    using assms(2) lt by simp
  finally show "?H ! ((\<Sum>j<s. length (requested sorters r j)) + k) = requested sorters r s ! k"
    by simp
qed

lemma GetHaloNodeValue_halo:
  assumes r: "r < length sorters"
    and key: "\<And>q. q < length sorters \<Longrightarrow>
                sorted (map (FindProcessor (sorters ! q)) (halo_list (sorters ! q) q))"
    and g: "g \<in> set (halo_list (sorters ! r) r)"
    and s: "FindProcessor (sorters ! r) g = s" "s < length sorters"
    and v: "v < length fnames"
  shows "GetHaloNodeValue (ReprocessElementConnectivity (new_writers fnames sorters) ! r) g v
           = Inr (GetData (sorters ! s) v (g - GetNodeBegin (sorters ! s) s))"
proof -
  let ?n = "length sorters" and ?nf = "length fnames"
  let ?H = "halo_list (sorters ! r) r"
  let ?c = "\<lambda>j. length (requested sorters r j)"
  let ?w = "ReprocessElementConnectivity (new_writers fnames sorters) ! r"
  let ?B = "\<lambda>j. packed_block (sorters ! j) j ?nf (requested sorters r j)"
  let ?hvd = "write_at (replicate (max 1 (?nf * length ?H)) 0) 0 (concat (map ?B [0..<?n]))"
  have "g \<in> set (requested sorters r s)" using g s by (simp add: requested_def)
  then obtain k where k: "k < ?c s" "requested sorters r s ! k = g"
    by (auto simp: in_set_conv_nth)
  let ?p = "(\<Sum>j<s. ?c j) + k"
  have Hp: "?H ! ?p = g" and p: "?p < length ?H"
    using requested_nth [OF key [OF r] k(1)] k(2) by simp_all
  have lb: "lower_bound ?H g = ?p"
    using lower_bound_nth [OF sorted_halo_list distinct_halo_list p] Hp by simp
  have H: "?H \<noteq> []" using g by auto
  have w: "sorted_halo_nodes ?w = ?H" "size_mpi ?w = ?n"
    "num_nodes_to_receive ?w = map ?c [0..<?n]"
    "values_to_receive_displacements ?w = map (\<lambda>s. (\<Sum>j<s. ?c j) * ?nf) [0..<?n]"
    "halo_var_data ?w = ?hvd"
    using r H
    by (simp_all add: ReprocessElementConnectivity_nth [OF r key] request_phase_nth [OF r key]
          demand_phase_nth)
  have sums: "(\<Sum>j<s. num_nodes_to_receive ?w ! j) = (\<Sum>j<s. ?c j)"
    unfolding w using s(2) by (intro sum_nth_map_upt) simp
  have "halo_scan_ranks ?w v ((\<Sum>j<s. num_nodes_to_receive ?w ! j) + k) [0..<?n]
            (\<Sum>j<0. num_nodes_to_receive ?w ! j)
          = Some (halo_var_data ?w !
                   (values_to_receive_displacements ?w ! s + num_nodes_to_receive ?w ! s * v + k))"
    using s(2) k(1) by (intro halo_scan_ranks_found) (simp_all add: w)
  then have scan: "halo_scan_ranks ?w v ?p [0..<?n] 0
          = Some (?hvd ! ((\<Sum>j<s. ?c j) * ?nf + ?c s * v + k))"
    unfolding sums using s(2) by (simp add: w)
  have vk: "v * ?c s + k < length (?B s)"
  proof -
    have "v * ?c s + k < Suc v * ?c s" using k(1) by simp
    also have "\<dots> \<le> ?nf * ?c s" using v by (intro mult_le_mono1) simp
    finally show ?thesis by (simp add: length_packed_block)
  qed
  have tot: "(\<Sum>j<?n. length (?B j)) \<le> length (replicate (max 1 (?nf * length ?H)) (0::'a))"
  proof -
    have "(\<Sum>j<?n. length (?B j)) = ?nf * (\<Sum>j<?n. ?c j)"
      by (simp add: sum_length_packed_block mult.commute)
    also have "\<dots> \<le> ?nf * length ?H"
      by (intro mult_le_mono2 sum_requested_le)
    also have "\<dots> \<le> max 1 (?nf * length ?H)"
      by simp
    finally show ?thesis by simp
  qed
  have "?hvd ! ((\<Sum>j<s. length (?B j)) + (v * ?c s + k)) = ?B s ! (v * ?c s + k)"
    using s(2) vk tot by (rule write_at_concat_nth)
  also have "\<dots> = GetData (sorters ! s) v (requested sorters r s ! k - GetNodeBegin (sorters ! s) s)"
    using v k(1) by (rule packed_block_nth)
  finally have val: "?hvd ! ((\<Sum>j<s. ?c j) * ?nf + ?c s * v + k)
          = GetData (sorters ! s) v (g - GetNodeBegin (sorters ! s) s)"
    by (simp add: sum_length_packed_block k(2) mult.commute add.assoc)
  show ?thesis
    unfolding GetHaloNodeValue_def Let_def w(1) lb w(2) scan val by simp
qed

subsection \<open>Halo completeness and the blocks of the halo list\<close>

lemma valid_mesh_mesh2: "valid_mesh [''x'', ''y'', ''z''] [mesh2_sorter0, mesh2_sorter1]"
  by code_simp

text \<open>
  Claim C1. On a valid, consistently partitioned mesh, after
  \<open>ReprocessElementConnectivity\<close> has run on all ranks, every corner node \<open>g\<close> of a
  triangle or quadrilateral of rank \<open>r\<close> that \<open>FindProcessor\<close> gives to another rank is
  found by \<open>GetHaloNodeValue\<close>, for each of the three coordinates: the lookup does not
  fail, and it returns the value that the owning rank holds at the local offset
  \<open>g - GetNodeBegin (FindProcessor g)\<close>.
\<close>

theorem halo_completeness:
  assumes "valid_mesh fnames sorters" and "r < length sorters"
    and "g \<in> set (referenced_nodes (sorters ! r))"
    and "FindProcessor (sorters ! r) g \<noteq> r"
    and "iVar < 3"
  shows "GetHaloNodeValue (ReprocessElementConnectivity (new_writers fnames sorters) ! r) g iVar
           = Inr (GetData (sorters ! FindProcessor (sorters ! r) g) iVar
                    (g - GetNodeBegin (sorters ! r) (FindProcessor (sorters ! r) g)))"
proof -
  let ?s = "FindProcessor (sorters ! r) g"
  note vr = valid_mesh_rank [OF assms(1,2)]
  have halo: "g \<in> set (halo_list (sorters ! r) r)"
    using assms(3,4) by (simp add: set_halo_list [OF vr(1,2)])
  have s: "?s < length sorters"
    using assms(3) by (rule vr(3))
  have nb: "GetNodeBegin (sorters ! r) ?s = GetNodeBegin (sorters ! ?s) ?s"
    using s by (rule vr(5))
  have v: "iVar < length fnames"
    using valid_mesh_fields [OF assms(1)] assms(5) by simp
  show ?thesis
    unfolding nb
    by (rule GetHaloNodeValue_halo [OF assms(2) valid_mesh_key_sorted [OF assms(1)] halo refl s v])
qed

theorem halo_completeness_witness:
  "valid_mesh [''x'', ''y'', ''z''] [mesh2_sorter0, mesh2_sorter1]
   \<and> (0::nat) < length [mesh2_sorter0, mesh2_sorter1]
   \<and> 4 \<in> set (referenced_nodes ([mesh2_sorter0, mesh2_sorter1] ! 0))
   \<and> FindProcessor ([mesh2_sorter0, mesh2_sorter1] ! 0) 4 \<noteq> 0
   \<and> (1::nat) < 3
   \<and> GetHaloNodeValue (ReprocessElementConnectivity mesh2 ! 0) 4 1 = Inr 401"
proof -
  have a: "(0::nat) < length [mesh2_sorter0, mesh2_sorter1]" by simp
  have b: "4 \<in> set (referenced_nodes ([mesh2_sorter0, mesh2_sorter1] ! 0))" by code_simp
  have c: "FindProcessor ([mesh2_sorter0, mesh2_sorter1] ! 0) 4 \<noteq> 0" by code_simp
  have d: "(1::nat) < 3" by simp
  have e: "GetData ([mesh2_sorter0, mesh2_sorter1] ! FindProcessor ([mesh2_sorter0, mesh2_sorter1] ! 0) 4) 1
             (4 - GetNodeBegin ([mesh2_sorter0, mesh2_sorter1] ! 0)
                    (FindProcessor ([mesh2_sorter0, mesh2_sorter1] ! 0) 4)) = (401::int)"
    by code_simp
  have f: "GetHaloNodeValue (ReprocessElementConnectivity mesh2 ! 0) 4 1 = Inr 401"
    using halo_completeness [OF valid_mesh_mesh2 a b c d] unfolding e mesh2_def .
  show ?thesis
    using valid_mesh_mesh2 a b c d f by (intro conjI)
qed

text \<open>
  Claim C9. On a valid mesh, in the sorted halo list of rank \<open>r\<close> the nodes that rank
  \<open>s\<close> owns are the contiguous block that starts at \<open>nodes_to_receive_displacements ! s\<close>
  and has the length \<open>num_nodes_to_receive ! s\<close>; the blocks follow each other in
  increasing owner order and make up the whole halo set; and the request-phase
  exchange delivers to the owner \<open>s\<close>, in the segment it receives from \<open>r\<close>, exactly
  the halo nodes of \<open>r\<close> that \<open>s\<close> owns.
\<close>

theorem halo_blocks_by_owner:
  assumes "valid_mesh fnames sorters" and "r < length sorters" and "s < length sorters"
  shows "slice (sorted_halo_nodes (ReprocessElementConnectivity (new_writers fnames sorters) ! r))
           (nodes_to_receive_displacements (ReprocessElementConnectivity (new_writers fnames sorters) ! r) ! s)
           (num_nodes_to_receive (ReprocessElementConnectivity (new_writers fnames sorters) ! r) ! s)
         = filter (\<lambda>g. FindProcessor (sorters ! r) g = s)
             (halo_nodes (ReprocessElementConnectivity (new_writers fnames sorters) ! r))
       \<and> num_nodes_to_receive (ReprocessElementConnectivity (new_writers fnames sorters) ! r) ! s
         = length (filter (\<lambda>g. FindProcessor (sorters ! r) g = s)
             (halo_nodes (ReprocessElementConnectivity (new_writers fnames sorters) ! r)))
       \<and> concat (map (\<lambda>s. filter (\<lambda>g. FindProcessor (sorters ! r) g = s)
                     (halo_nodes (ReprocessElementConnectivity (new_writers fnames sorters) ! r)))
            [0..<length sorters])
         = halo_nodes (ReprocessElementConnectivity (new_writers fnames sorters) ! r)
       \<and> slice (nodes_to_send (ReprocessElementConnectivity (new_writers fnames sorters) ! s))
           (nodes_to_send_displacements (ReprocessElementConnectivity (new_writers fnames sorters) ! s) ! r)
           (num_nodes_to_send (ReprocessElementConnectivity (new_writers fnames sorters) ! s) ! r)
         = filter (\<lambda>g. FindProcessor (sorters ! r) g = s)
             (halo_nodes (ReprocessElementConnectivity (new_writers fnames sorters) ! r))"
proof -
  let ?W = "ReprocessElementConnectivity (new_writers fnames sorters)"
  let ?H = "halo_list (sorters ! r) r"
  note key = valid_mesh_key_sorted [OF assms(1)]
  note vr = valid_mesh_rank [OF assms(1,2)]
  have owner: "\<forall>g\<in>set ?H. FindProcessor (sorters ! r) g < length sorters"
    using vr(3) by (simp add: set_halo_list [OF vr(1,2)])
  have r: "halo_nodes (?W ! r) = ?H"
    "sorted_halo_nodes (?W ! r) = (if ?H = [] then [0] else ?H)"
    "nodes_to_receive_displacements (?W ! r) ! s = (\<Sum>j<s. length (requested sorters r j))"
    "num_nodes_to_receive (?W ! r) ! s = length (requested sorters r s)"
    using assms(2,3)
    by (simp_all add: ReprocessElementConnectivity_nth [OF assms(2) key]
          request_phase_nth [OF assms(2) key] demand_phase_nth)
  have s: "nodes_to_send (?W ! s)
             = write_at (replicate (max 1 (\<Sum>q<length sorters. length (requested sorters q s))) 0) 0
                 (concat (map (\<lambda>q. requested sorters q s) [0..<length sorters]))"
    "nodes_to_send_displacements (?W ! s) ! r = (\<Sum>j<r. length (requested sorters j s))"
    "num_nodes_to_send (?W ! s) ! r = length (requested sorters r s)"
    using assms(2,3)
    by (simp_all add: ReprocessElementConnectivity_nth [OF assms(3) key]
          request_phase_nth [OF assms(3) key] demand_phase_nth)
  have 1: "slice (sorted_halo_nodes (?W ! r)) (nodes_to_receive_displacements (?W ! r) ! s)
             (num_nodes_to_receive (?W ! r) ! s)
           = filter (\<lambda>g. FindProcessor (sorters ! r) g = s) (halo_nodes (?W ! r))"
    unfolding r using slice_requested [OF key [OF assms(2)], of s] by (simp add: requested_def)
  have 2: "num_nodes_to_receive (?W ! r) ! s
           = length (filter (\<lambda>g. FindProcessor (sorters ! r) g = s) (halo_nodes (?W ! r)))"
    unfolding r by (simp add: requested_def)
  have 3: "concat (map (\<lambda>s. filter (\<lambda>g. FindProcessor (sorters ! r) g = s) (halo_nodes (?W ! r)))
             [0..<length sorters]) = halo_nodes (?W ! r)"
    unfolding r using key [OF assms(2)] owner by (rule key_sorted_concat)
  have "slice (nodes_to_send (?W ! s)) (nodes_to_send_displacements (?W ! s) ! r)
             (num_nodes_to_send (?W ! s) ! r) = requested sorters r s"
    unfolding s using assms(2) by (intro slice_write_at_concat) simp_all
  then have 4: "slice (nodes_to_send (?W ! s)) (nodes_to_send_displacements (?W ! s) ! r)
             (num_nodes_to_send (?W ! s) ! r)
           = filter (\<lambda>g. FindProcessor (sorters ! r) g = s) (halo_nodes (?W ! r))"
    unfolding r by (simp add: requested_def)
  show ?thesis using 1 2 3 4 by (intro conjI)
qed

theorem halo_blocks_by_owner_witness:
  "valid_mesh [''x'', ''y'', ''z''] [mesh2_sorter0, mesh2_sorter1]
   \<and> (0::nat) < length [mesh2_sorter0, mesh2_sorter1]
   \<and> (1::nat) < length [mesh2_sorter0, mesh2_sorter1]
   \<and> slice (sorted_halo_nodes (ReprocessElementConnectivity mesh2 ! 0))
        (nodes_to_receive_displacements (ReprocessElementConnectivity mesh2 ! 0) ! 1)
        (num_nodes_to_receive (ReprocessElementConnectivity mesh2 ! 0) ! 1) = [4, 6]
   \<and> slice (nodes_to_send (ReprocessElementConnectivity mesh2 ! 1))
        (nodes_to_send_displacements (ReprocessElementConnectivity mesh2 ! 1) ! 0)
        (num_nodes_to_send (ReprocessElementConnectivity mesh2 ! 1) ! 0) = [4, 6]"
proof -
  have a: "(0::nat) < length [mesh2_sorter0, mesh2_sorter1]"
    and b: "(1::nat) < length [mesh2_sorter0, mesh2_sorter1]" by simp_all
  have f: "filter (\<lambda>g. FindProcessor ([mesh2_sorter0, mesh2_sorter1] ! 0) g = 1)
             (halo_nodes (ReprocessElementConnectivity mesh2 ! 0)) = [4, 6]"
    by code_simp
  note t = halo_blocks_by_owner [OF valid_mesh_mesh2 a b, folded mesh2_def, unfolded f]
  show ?thesis
    using valid_mesh_mesh2 a b t by blast
qed

subsection \<open>The packing of the data phase\<close>

lemma request_phase_pack:
  assumes r: "r < length sorters"
  shows "data_to_send (request_phase (demand_phase (new_writers fnames sorters)) ! r)
     = write_at
         (replicate (max 1 ((\<Sum>q<length sorters. length (requested sorters q r)) * length fnames)) 0) 0
         (concat (map (\<lambda>q. packed_block (sorters ! r) r (length fnames)
                          (slice (nodes_to_send (request_phase (demand_phase (new_writers fnames sorters)) ! r))
                             (\<Sum>j<q. length (requested sorters j r))
                             (length (requested sorters q r))))
                    [0..<length sorters]))"
    and "num_nodes_to_send (request_phase (demand_phase (new_writers fnames sorters)) ! r)
           = map (\<lambda>q. length (requested sorters q r)) [0..<length sorters]"
    and "nodes_to_send_displacements (request_phase (demand_phase (new_writers fnames sorters)) ! r)
           = map (\<lambda>q. \<Sum>j<q. length (requested sorters j r)) [0..<length sorters]"
    and "num_values_to_send (request_phase (demand_phase (new_writers fnames sorters)) ! r)
           = map (\<lambda>q. length (requested sorters q r) * length fnames) [0..<length sorters]"
    and "values_to_send_displacements (request_phase (demand_phase (new_writers fnames sorters)) ! r)
           = map (\<lambda>q. (\<Sum>j<q. length (requested sorters j r)) * length fnames) [0..<length sorters]"
proof -
  let ?n = "length sorters" and ?nf = "length fnames"
  let ?W = "demand_phase (new_writers fnames sorters)"
  let ?T = "\<Sum>q<?n. length (requested sorters q r)"
  let ?X = "Alltoallv
              (map (\<lambda>u. (sorted_halo_nodes u, num_nodes_to_receive u,
                         nodes_to_receive_displacements u)) ?W)
              (rank (?W ! r)) (nodes_to_send (?W ! r)) (num_nodes_to_send (?W ! r))
              (nodes_to_send_displacements (?W ! r))"
  let ?req = "\<lambda>q. slice ?X (\<Sum>j<q. length (requested sorters j r)) (length (requested sorters q r))"
  obtain m where n: "?n = Suc m" using r by (cases ?n) auto
  have lenW: "length ?W = ?n"
    by (simp add: length_demand_phase length_new_writers)
  have step: "request_phase ?W ! r = Reprocess_pack ((?W ! r)\<lparr> nodes_to_send := ?X \<rparr>)"
    unfolding request_phase_def using r lenW by simp
  have lenreq: "length (?req q) = length (requested sorters q r)" for q
    by (simp add: slice_def)
  have blocks: "concat (map (\<lambda>iRank.
            concat (map (\<lambda>iVar.
              map (\<lambda>iNode. GetData (sorters ! r) iVar
                     (?X ! ((\<Sum>j<iRank. length (requested sorters j r)) + iNode)
                        - GetNodeBegin (sorters ! r) r))
                [0..<length (?req iRank)])
              [0..<?nf]))
            [0..<?n])
         = concat (map (\<lambda>q. packed_block (sorters ! r) r ?nf (?req q)) [0..<?n])"
    by (rule packed_blocks_cong) (simp add: slice_def)
  have pack: "fst (pack_data_to_send ((?W ! r)\<lparr> nodes_to_send := ?X \<rparr>) (buf, 0))
                = write_at buf 0 (concat (map (\<lambda>q. packed_block (sorters ! r) r ?nf (?req q)) [0..<?n]))"
    for buf
  proof -
    have "concat (map (\<lambda>iRank.
            concat (map (\<lambda>iVar.
              map (\<lambda>iNode. GetData (sorters ! r) iVar
                     (?X ! (map (\<lambda>q. \<Sum>j<q. length (requested sorters j r)) [0..<?n] ! iRank + iNode)
                        - GetNodeBegin (sorters ! r) r))
                [0..<map (\<lambda>q. length (requested sorters q r)) [0..<?n] ! iRank])
              [0..<?nf]))
            [0..<?n])
         = concat (map (\<lambda>iRank.
            concat (map (\<lambda>iVar.
              map (\<lambda>iNode. GetData (sorters ! r) iVar
                     (?X ! ((\<Sum>j<iRank. length (requested sorters j r)) + iNode)
                        - GetNodeBegin (sorters ! r) r))
                [0..<length (?req iRank)])
              [0..<?nf]))
            [0..<?n])"
      unfolding lenreq by (intro arg_cong [where f = concat] map_cong [OF refl]) simp
    then have "concat (map (\<lambda>iRank.
            concat (map (\<lambda>iVar.
              map (\<lambda>iNode. GetData (sorters ! r) iVar
                     (?X ! (map (\<lambda>q. \<Sum>j<q. length (requested sorters j r)) [0..<?n] ! iRank + iNode)
                        - GetNodeBegin (sorters ! r) r))
                [0..<map (\<lambda>q. length (requested sorters q r)) [0..<?n] ! iRank])
              [0..<?nf]))
            [0..<?n])
         = concat (map (\<lambda>q. packed_block (sorters ! r) r ?nf (?req q)) [0..<?n])"
      unfolding blocks .
    then show ?thesis
      using r by (simp add: pack_data_to_send_eq fold_store demand_phase_nth)
  qed
  have tot: "total_num_nodes_to_send ((?W ! r)\<lparr> nodes_to_send := ?X \<rparr>) = ?T"
    using r by (simp add: total_num_nodes_to_send_def demand_phase_nth n nth_append del: upt_Suc)
  have nts: "nodes_to_send (request_phase ?W ! r) = ?X"
    unfolding step Reprocess_pack_def Let_def by simp
  show "data_to_send (request_phase ?W ! r)
     = write_at (replicate (max 1 (?T * ?nf)) 0) 0
         (concat (map (\<lambda>q. packed_block (sorters ! r) r ?nf
                          (slice (nodes_to_send (request_phase ?W ! r))
                             (\<Sum>j<q. length (requested sorters j r))
                             (length (requested sorters q r))))
                    [0..<?n]))"
    unfolding nts unfolding step Reprocess_pack_def Let_def pack tot
    using r by (simp add: demand_phase_nth resize_Nil)
  show "num_nodes_to_send (request_phase ?W ! r) = map (\<lambda>q. length (requested sorters q r)) [0..<?n]"
    unfolding step Reprocess_pack_def Let_def using r by (simp add: demand_phase_nth)
  show "nodes_to_send_displacements (request_phase ?W ! r)
          = map (\<lambda>q. \<Sum>j<q. length (requested sorters j r)) [0..<?n]"
    unfolding step Reprocess_pack_def Let_def using r by (simp add: demand_phase_nth)
  show "num_values_to_send (request_phase ?W ! r)
          = map (\<lambda>q. length (requested sorters q r) * ?nf) [0..<?n]"
    unfolding step Reprocess_pack_def Let_def using r
    by (simp add: demand_phase_nth resize_Nil assign_all_eq_map)
  show "values_to_send_displacements (request_phase ?W ! r)
          = map (\<lambda>q. (\<Sum>j<q. length (requested sorters j r)) * ?nf) [0..<?n]"
    unfolding step Reprocess_pack_def Let_def using r
    by (simp add: demand_phase_nth resize_Nil assign_all_eq_map)
qed

lemma data_phase_frame:
  assumes "r < length ws"
  shows "data_to_send (data_phase ws ! r) = data_to_send (ws ! r)"
    and "nodes_to_send (data_phase ws ! r) = nodes_to_send (ws ! r)"
    and "num_nodes_to_send (data_phase ws ! r) = num_nodes_to_send (ws ! r)"
    and "nodes_to_send_displacements (data_phase ws ! r) = nodes_to_send_displacements (ws ! r)"
    and "num_values_to_send (data_phase ws ! r) = num_values_to_send (ws ! r)"
    and "values_to_send_displacements (data_phase ws ! r) = values_to_send_displacements (ws ! r)"
  using assms by (simp_all add: data_phase_def)

text \<open>
  Claim C5 (as stated, refuted). On the mesh of two ranks, rank 1 is asked by rank 0
  for the nodes 4 and 6. The block it sends holds the \<open>x\<close> values of both nodes, then
  their \<open>y\<close> values, then their \<open>z\<close> values; the fields of one node are not next to
  each other, as the packing per node would have them.
\<close>

theorem data_phase_packing_counterexample:
  "slice (nodes_to_send (ReprocessElementConnectivity mesh2 ! 1))
     (nodes_to_send_displacements (ReprocessElementConnectivity mesh2 ! 1) ! 0)
     (num_nodes_to_send (ReprocessElementConnectivity mesh2 ! 1) ! 0) = [4, 6]
   \<and> slice (data_to_send (ReprocessElementConnectivity mesh2 ! 1))
       (values_to_send_displacements (ReprocessElementConnectivity mesh2 ! 1) ! 0)
       (num_values_to_send (ReprocessElementConnectivity mesh2 ! 1) ! 0)
     = [400, 600, 401, 601, 402, 602]
   \<and> packed_per_node (dataSorter (ReprocessElementConnectivity mesh2 ! 1)) 1 3 [4, 6]
     = [400, 401, 402, 600, 601, 602]
   \<and> slice (data_to_send (ReprocessElementConnectivity mesh2 ! 1))
       (values_to_send_displacements (ReprocessElementConnectivity mesh2 ! 1) ! 0)
       (num_values_to_send (ReprocessElementConnectivity mesh2 ! 1) ! 0)
     \<noteq> packed_per_node (dataSorter (ReprocessElementConnectivity mesh2 ! 1)) 1 3 [4, 6]"
  by code_simp

text \<open>
  Claim C5 (amended). In the data phase the owning rank \<open>r\<close> computes the local offset
  of a requested node as its global number minus \<open>GetNodeBegin\<close> of \<open>r\<close>, and packs the
  block for the peer \<open>q\<close> field by field: the value of field \<open>iVar\<close> of the \<open>iNode\<close>-th
  node that \<open>q\<close> requested is at position \<open>iVar * count + iNode\<close> of the block, where
  \<open>count\<close> is the number of nodes \<open>q\<close> requested. The width of the block is that count
  times the number of fields.
\<close>

theorem data_phase_packing:
  assumes "r < length sorters" and "q < length sorters"
    and "iVar < length fnames"
    and "iNode < num_nodes_to_send (ReprocessElementConnectivity (new_writers fnames sorters) ! r) ! q"
  shows "data_to_send (ReprocessElementConnectivity (new_writers fnames sorters) ! r)
           ! (values_to_send_displacements (ReprocessElementConnectivity (new_writers fnames sorters) ! r) ! q
              + iVar * num_nodes_to_send (ReprocessElementConnectivity (new_writers fnames sorters) ! r) ! q
              + iNode)
         = GetData (sorters ! r) iVar
             (nodes_to_send (ReprocessElementConnectivity (new_writers fnames sorters) ! r)
                ! (nodes_to_send_displacements (ReprocessElementConnectivity (new_writers fnames sorters) ! r) ! q
                   + iNode)
              - GetNodeBegin (sorters ! r) r)
       \<and> num_values_to_send (ReprocessElementConnectivity (new_writers fnames sorters) ! r) ! q
         = num_nodes_to_send (ReprocessElementConnectivity (new_writers fnames sorters) ! r) ! q
             * length fnames"
proof -
  let ?n = "length sorters" and ?nf = "length fnames"
  let ?W3 = "request_phase (demand_phase (new_writers fnames sorters))"
  let ?W = "ReprocessElementConnectivity (new_writers fnames sorters)"
  let ?c = "\<lambda>q. length (requested sorters q r)"
  let ?D = "\<lambda>q. \<Sum>j<q. ?c j"
  let ?B = "\<lambda>q. packed_block (sorters ! r) r ?nf (slice (nodes_to_send (?W3 ! r)) (?D q) (?c q))"
  let ?buf = "replicate (max 1 ((\<Sum>q<?n. ?c q) * ?nf)) (0::'a)"
  have len3: "r < length ?W3"
    using assms(1) by (simp add: length_request_phase length_demand_phase length_new_writers)
  note rp = request_phase_pack [OF assms(1), of fnames]
  have f: "data_to_send (?W ! r) = write_at ?buf 0 (concat (map ?B [0..<?n]))"
    "nodes_to_send (?W ! r) = nodes_to_send (?W3 ! r)"
    "num_nodes_to_send (?W ! r) ! q = ?c q"
    "nodes_to_send_displacements (?W ! r) ! q = ?D q"
    "num_values_to_send (?W ! r) ! q = ?c q * ?nf"
    "values_to_send_displacements (?W ! r) ! q = ?D q * ?nf"
    unfolding ReprocessElementConnectivity_def data_phase_frame [OF len3] rp
    using assms(2) by simp_all
  have lenB: "length (?B j) = ?nf * ?c j" for j
    by (simp add: length_packed_block slice_def)
  have i: "iNode < ?c q" using assms(4) unfolding f .
  have vk: "iVar * ?c q + iNode < length (?B q)"
  proof -
    have "iVar * ?c q + iNode < Suc iVar * ?c q" using i by simp
    also have "\<dots> \<le> ?nf * ?c q" using assms(3) by (intro mult_le_mono1) simp
    finally show ?thesis by (simp add: lenB)
  qed
  have tot: "(\<Sum>j<?n. length (?B j)) \<le> length ?buf"
    by (simp add: lenB sum_distrib_left [symmetric] mult.commute)
  have sumB: "(\<Sum>j<q. length (?B j)) = ?D q * ?nf"
    by (simp add: lenB sum_distrib_left [symmetric] mult.commute)
  have "write_at ?buf 0 (concat (map ?B [0..<?n])) ! ((\<Sum>j<q. length (?B j)) + (iVar * ?c q + iNode))
          = ?B q ! (iVar * ?c q + iNode)"
    using assms(2) vk tot by (rule write_at_concat_nth)
  also have "\<dots> = ?B q ! (iVar * length (slice (nodes_to_send (?W3 ! r)) (?D q) (?c q)) + iNode)"
    by (simp add: slice_def)
  also have "\<dots> = GetData (sorters ! r) iVar
                     (slice (nodes_to_send (?W3 ! r)) (?D q) (?c q) ! iNode - GetNodeBegin (sorters ! r) r)"
    using assms(3) i by (intro packed_block_nth) (simp_all add: slice_def)
  also have "\<dots> = GetData (sorters ! r) iVar
                     (nodes_to_send (?W3 ! r) ! (?D q + iNode) - GetNodeBegin (sorters ! r) r)"
    using i by (simp add: slice_def)
  finally have "write_at ?buf 0 (concat (map ?B [0..<?n])) ! (?D q * ?nf + iVar * ?c q + iNode)
          = GetData (sorters ! r) iVar
              (nodes_to_send (?W3 ! r) ! (?D q + iNode) - GetNodeBegin (sorters ! r) r)"
    unfolding sumB by (simp add: add.assoc)
  then show ?thesis
    unfolding f by simp
qed

theorem data_phase_packing_witness:
  "(1::nat) < length [mesh2_sorter0, mesh2_sorter1]
   \<and> (0::nat) < length [mesh2_sorter0, mesh2_sorter1]
   \<and> (2::nat) < length [''x'', ''y'', ''z'']
   \<and> (1::nat) < num_nodes_to_send (ReprocessElementConnectivity mesh2 ! 1) ! 0
   \<and> data_to_send (ReprocessElementConnectivity mesh2 ! 1)
        ! (values_to_send_displacements (ReprocessElementConnectivity mesh2 ! 1) ! 0
           + 2 * num_nodes_to_send (ReprocessElementConnectivity mesh2 ! 1) ! 0 + 1) = 602
   \<and> num_values_to_send (ReprocessElementConnectivity mesh2 ! 1) ! 0 = 6"
proof -
  have a: "(1::nat) < length [mesh2_sorter0, mesh2_sorter1]"
    and b: "(0::nat) < length [mesh2_sorter0, mesh2_sorter1]"
    and c: "(2::nat) < length [''x'', ''y'', ''z'']" by simp_all
  have d: "(1::nat) < num_nodes_to_send (ReprocessElementConnectivity mesh2 ! 1) ! 0"
    by code_simp
  have e: "GetData ([mesh2_sorter0, mesh2_sorter1] ! 1) 2
             (nodes_to_send (ReprocessElementConnectivity mesh2 ! 1)
                ! (nodes_to_send_displacements (ReprocessElementConnectivity mesh2 ! 1) ! 0 + 1)
              - GetNodeBegin ([mesh2_sorter0, mesh2_sorter1] ! 1) 1) = (602::int)"
    by code_simp
  have f: "num_nodes_to_send (ReprocessElementConnectivity mesh2 ! 1) ! 0 * length [''x'', ''y'', ''z''] = 6"
    by code_simp
  note t = data_phase_packing [OF a b c d [unfolded mesh2_def], folded mesh2_def, unfolded e f]
  show ?thesis
    using a b c d t by blast
qed

subsection \<open>The loops of GatherCoordData\<close>

lemma load_nodes_append:
  "load_nodes w (xs @ ys) st
     = (case load_nodes w xs st of Inl e \<Rightarrow> Inl e | Inr st' \<Rightarrow> load_nodes w ys st')"
  by (induction xs arbitrary: st) (simp_all split: sum.splits)

lemma for_loop_load_node: "for_loop is (\<lambda>i. load_node w (f i)) st = load_nodes w (map f is) st"
  by (induction "is" arbitrary: st) (simp_all split: sum.splits)

lemma for_loop_nested_load_node:
  "for_loop es (\<lambda>e. for_loop ps (\<lambda>p. load_node w (f e p))) st
     = load_nodes w (concat (map (\<lambda>e. map (f e) ps) es)) st"
  by (induction es arbitrary: st)
     (simp_all add: load_nodes_append for_loop_load_node split: sum.splits)

lemma load_triangles_eq:
  "load_triangles w st = load_nodes w (corner_nodes (dataSorter w) TRIANGLE 3) st"
  by (simp add: load_triangles_def corner_nodes_def for_loop_nested_load_node)

lemma load_quadrilaterals_eq:
  "load_quadrilaterals w st = load_nodes w (quadrilateral_nodes (dataSorter w)) st"
  by (simp add: load_quadrilaterals_def quadrilateral_nodes_def for_loop_nested_load_node)

lemma halo_scan_ranks_dataSorter:
  "halo_scan_ranks (w\<lparr>dataSorter := ds\<rparr>) iVar offset rs id' = halo_scan_ranks w iVar offset rs id'"
  by (induction rs arbitrary: id') (simp_all split: sum.splits)

lemma GetHaloNodeValue_dataSorter:
  "GetHaloNodeValue (w\<lparr>dataSorter := ds\<rparr>) g iVar = GetHaloNodeValue w g iVar"
  by (simp add: GetHaloNodeValue_def halo_scan_ranks_dataSorter)

lemma node_value_quads_as_triangles:
  "node_value (w\<lparr>dataSorter := quads_as_triangles (dataSorter w)\<rparr>) g iVar = node_value w g iVar"
  by (simp add: node_value_def GetHaloNodeValue_dataSorter quads_as_triangles_def)

lemma load_node_quads_as_triangles:
  "load_node (w\<lparr>dataSorter := quads_as_triangles (dataSorter w)\<rparr>) g = load_node w g"
  by (simp add: load_node_def node_value_quads_as_triangles)

lemma load_nodes_quads_as_triangles:
  "load_nodes (w\<lparr>dataSorter := quads_as_triangles (dataSorter w)\<rparr>) gs st = load_nodes w gs st"
  by (induction gs arbitrary: st) (simp_all add: load_node_quads_as_triangles split: sum.splits)

lemma upt_0_3: "[0..<3] = [0, 1, 2]"
  by code_simp

lemma upt_0_6: "[0..<6] = [0, 1, 2, 3, 4, 5]"
  by code_simp

lemma concat_pairs:
  "concat (map (\<lambda>e. F (e div 2) (e mod 2)) [0..<2 * n]) = concat (map (\<lambda>e. F e 0 @ F e 1) [0..<n])"
  by (induction n) simp_all

lemma corner_nodes_quads_as_triangles:
  "corner_nodes (quads_as_triangles ds) TRIANGLE 3 = quadrilateral_nodes ds"
proof -
  let ?F = "\<lambda>e (h::nat). map (\<lambda>iPoint. GetElem_Connectivity ds QUADRILATERAL e
                              ((if h = 0 then [0, 1, 3] else [1, 2, 3]) ! iPoint) - 1) [0..<3]"
  have "corner_nodes (quads_as_triangles ds) TRIANGLE 3
          = concat (map (\<lambda>e. ?F (e div 2) (e mod 2)) [0..<2 * GetnElem ds QUADRILATERAL])"
    by (simp add: corner_nodes_def quads_as_triangles_def)
  also have "\<dots> = concat (map (\<lambda>e. ?F e 0 @ ?F e 1) [0..<GetnElem ds QUADRILATERAL])"
    by (rule concat_pairs)
  also have "\<dots> = quadrilateral_nodes ds"
    unfolding quadrilateral_nodes_def Nodelist_def
    by (intro arg_cong [where f = concat] map_cong [OF refl])
       (simp add: upt_0_3 upt_0_6)
  finally show ?thesis .
qed

lemma load_node_Inr:
  assumes "\<And>iVar. iVar < 3 \<Longrightarrow> node_value w g iVar = Inr (val iVar)"
  shows "load_node w g st = Inr (fold store (map val [0..<3]) st)"
proof -
  have "load_node w g st = Inr (fold (\<lambda>iVar. store (val iVar)) [0..<3] st)"
    unfolding load_node_def by (rule for_loop_Inr) (simp add: assms)
  then show ?thesis by (simp add: fold_map comp_def)
qed

lemma load_nodes_Inr:
  assumes "\<And>g iVar. g \<in> set gs \<Longrightarrow> iVar < 3 \<Longrightarrow> node_value w g iVar = Inr (val g iVar)"
  shows "load_nodes w gs st = Inr (fold store (concat (map (\<lambda>g. map (val g) [0..<3]) gs)) st)"
  using assms
proof (induction gs arbitrary: st)
  case Nil
  show ?case by simp
next
  case (Cons g gs)
  have "load_node w g st = Inr (fold store (map (val g) [0..<3]) st)"
    by (rule load_node_Inr) (simp add: Cons.prems)
  moreover have "load_nodes w gs st' = Inr (fold store (concat (map (\<lambda>g. map (val g) [0..<3]) gs)) st')"
    for st'
    by (rule Cons.IH) (simp add: Cons.prems)
  ultimately show ?case by simp
qed

lemma load_send_buffer_Inr:
  assumes "\<And>g iVar. g \<in> set (corner_nodes (dataSorter w) TRIANGLE 3 @ quadrilateral_nodes (dataSorter w))
             \<Longrightarrow> iVar < 3 \<Longrightarrow> node_value w g iVar = Inr (val g iVar)"
  shows "load_send_buffer w
           = Inr (write_at (replicate (MaxLocalTriaAll w * 3 * 3) 0) 0
                   (concat (map (\<lambda>g. map (val g) [0..<3])
                              (corner_nodes (dataSorter w) TRIANGLE 3
                               @ quadrilateral_nodes (dataSorter w)))))"
proof -
  let ?gs = "corner_nodes (dataSorter w) TRIANGLE 3 @ quadrilateral_nodes (dataSorter w)"
  have "load_send_buffer w
          = (case load_nodes w ?gs (replicate (MaxLocalTriaAll w * 3 * 3) 0, 0) of
               Inl e \<Rightarrow> Inl e | Inr st \<Rightarrow> Inr (fst st))"
    by (simp add: load_send_buffer_def load_triangles_eq load_quadrilaterals_eq load_nodes_append
          split: sum.splits)
  also have "load_nodes w ?gs (replicate (MaxLocalTriaAll w * 3 * 3) 0, 0)
          = Inr (fold store (concat (map (\<lambda>g. map (val g) [0..<3]) ?gs))
                   (replicate (MaxLocalTriaAll w * 3 * 3) 0, 0))"
    by (rule load_nodes_Inr) (rule assms)
  finally show ?thesis
    using write_at_append [of "replicate (MaxLocalTriaAll w * 3 * 3) 0" 0]
    by (simp add: fold_store)
qed


lemma all_ranks_length: "all_ranks xs = Inr ys \<Longrightarrow> length ys = length xs"
  by (induction xs arbitrary: ys) (auto split: sum.splits)

lemma Gather_singletons: "Gather (map (\<lambda>u. [f u]) ws) 1 = map f ws"
  by (induction ws) (simp_all add: Gather_def slice_def)


lemma phases_frame:
  assumes "r < length ws"
  shows "rank (ReprocessElementConnectivity ws ! r) = rank (ws ! r)"
    and "size_mpi (ReprocessElementConnectivity ws ! r) = size_mpi (ws ! r)"
    and "dataSorter (ReprocessElementConnectivity ws ! r) = dataSorter (ws ! r)"
    and "fieldnames (ReprocessElementConnectivity ws ! r) = fieldnames (ws ! r)"
  using assms
  by (simp_all add: ReprocessElementConnectivity_def data_phase_def request_phase_def
        demand_phase_def Let_def Reprocess_pack_def Reprocess_displacements_def
        Reprocess_halo_nodes_def)

lemma length_ReprocessElementConnectivity: "length (ReprocessElementConnectivity ws) = length ws"
  by (simp add: ReprocessElementConnectivity_def length_data_phase length_request_phase
        length_demand_phase)

lemma GatherCoordData_counts_nth:
  assumes "r < length ws"
  shows "GatherCoordData_counts m ws ! r
           = (ws ! r)\<lparr> MaxLocalTriaAll := Allreduce_MAX (map nLocalTriaAll ws),
                        Buffer_Recv_nTriaAll :=
                          (if rank (ws ! r) = m then map nLocalTriaAll ws
                           else Buffer_Recv_nTriaAll (ws ! r)) \<rparr>"
  using assms Gather_singletons [of nLocalTriaAll ws] by (simp add: GatherCoordData_counts_def)

lemma length_GatherCoordData_counts: "length (GatherCoordData_counts m ws) = length ws"
  by (simp add: GatherCoordData_counts_def)

subsection \<open>The gathered counts and the file\<close>

lemma GatherCoordData_Inr:
  assumes "GatherCoordData m ws0 = Inr ws"
  shows "length ws = length ws0"
    and "\<And>r. r < length ws0 \<Longrightarrow> rank (ws ! r) = rank (ws0 ! r)"
    and "\<And>r. r < length ws0 \<Longrightarrow> size_mpi (ws ! r) = size_mpi (ws0 ! r)"
    and "\<And>r. r < length ws0 \<Longrightarrow> MaxLocalTriaAll (ws ! r) = Allreduce_MAX (map nLocalTriaAll ws0)"
    and "\<And>r. r < length ws0 \<Longrightarrow> rank (ws0 ! r) = m \<Longrightarrow>
           Buffer_Recv_nTriaAll (ws ! r) = map nLocalTriaAll ws0"
proof -
  let ?ws1 = "GatherCoordData_counts m ws0"
  obtain bufs where ws: "ws = map (\<lambda>w. if rank w = m
                            then w\<lparr> bufD_Recv := Gather bufs (MaxLocalTriaAll w * 3 * 3) \<rparr>
                            else w) ?ws1"
    using assms by (auto simp: GatherCoordData_def Let_def split: sum.splits)
  show "length ws = length ws0"
    by (simp add: ws length_GatherCoordData_counts)
  show "rank (ws ! r) = rank (ws0 ! r)" if "r < length ws0" for r
    using that by (simp add: ws length_GatherCoordData_counts GatherCoordData_counts_nth)
  show "size_mpi (ws ! r) = size_mpi (ws0 ! r)" if "r < length ws0" for r
    using that by (simp add: ws length_GatherCoordData_counts GatherCoordData_counts_nth)
  show "MaxLocalTriaAll (ws ! r) = Allreduce_MAX (map nLocalTriaAll ws0)" if "r < length ws0" for r
    using that by (simp add: ws length_GatherCoordData_counts GatherCoordData_counts_nth)
  show "Buffer_Recv_nTriaAll (ws ! r) = map nLocalTriaAll ws0"
    if "r < length ws0" "rank (ws0 ! r) = m" for r
    using that by (simp add: ws length_GatherCoordData_counts GatherCoordData_counts_nth)
qed

lemma map_nth_ranks:
  assumes "\<And>r. r < length ws \<Longrightarrow> rank (ws ! r) = r"
  shows "map (\<lambda>w. f (rank w) w) ws = map (\<lambda>r. f r (ws ! r)) [0..<length ws]"
  by (rule nth_equalityI) (simp_all add: assms)

lemma new_writers_frame:
  assumes "r < length sorters"
  shows "rank (ReprocessElementConnectivity (new_writers fnames sorters) ! r) = r"
    and "size_mpi (ReprocessElementConnectivity (new_writers fnames sorters) ! r) = length sorters"
    and "dataSorter (ReprocessElementConnectivity (new_writers fnames sorters) ! r) = sorters ! r"
    and "fieldnames (ReprocessElementConnectivity (new_writers fnames sorters) ! r) = fnames"
  using assms by (simp_all add: phases_frame length_new_writers new_writers_nth)

lemma map_nLocalTriaAll:
  "map nLocalTriaAll (ReprocessElementConnectivity (new_writers fnames sorters))
     = map (\<lambda>ds. GetnElem ds TRIANGLE + 2 * GetnElem ds QUADRILATERAL) sorters"
  by (rule nth_equalityI)
     (simp_all add: length_ReprocessElementConnectivity length_new_writers nLocalTriaAll_def
        new_writers_frame)

lemma Write_Data_Inr:
  assumes "GatherCoordData m (ReprocessElementConnectivity (new_writers fnames sorters)) = Inr ws"
  shows "Write_Data out m (new_writers fnames sorters)
           = Inr (map (\<lambda>r. if r = m then Some (stl_file out (ws ! r)) else None) [0..<length sorters])"
proof -
  let ?W = "ReprocessElementConnectivity (new_writers fnames sorters)"
  have len: "length ?W = length sorters" "length ws = length sorters"
    using GatherCoordData_Inr(1) [OF assms]
    by (simp_all add: length_ReprocessElementConnectivity length_new_writers)
  have rk: "rank (ws ! r) = r" if "r < length ws" for r
    using GatherCoordData_Inr(2) [OF assms, of r] that len by (simp add: new_writers_frame)
  have "map (\<lambda>w. if rank w = m then Some (stl_file out w) else None) ws
          = map (\<lambda>r. if r = m then Some (stl_file out (ws ! r)) else None) [0..<length ws]"
    using rk by (rule map_nth_ranks [where f = "\<lambda>r w. if r = m then Some (stl_file out w) else None"])
  then show ?thesis
    by (simp add: Write_Data_def assms len)
qed

lemma count_list_concat: "count_list (concat xss) x = sum_list (map (\<lambda>xs. count_list xs x) xss)"
  by (induction xss) simp_all

lemma count_endfacet_stl_facet: "count_list (stl_facet out buf mx p e) ''endfacet'' = 1"
  by (simp add: stl_facet_def stl_vertex_def upt_0_3)

lemma count_endfacet_stl_file:
  "count_list (stl_file out w) ''endfacet''
     = sum_list (map (\<lambda>p. Buffer_Recv_nTriaAll w ! p) [0..<size_mpi w])"
  by (simp add: stl_file_def count_list_concat comp_def count_endfacet_stl_facet sum_list_triv)

lemma stl_facet_cong:
  assumes "\<And>i. p * mx * 9 + e * 9 \<le> i \<Longrightarrow> i < p * mx * 9 + e * 9 + 9 \<Longrightarrow> buf ! i = buf' ! i"
  shows "stl_facet out buf mx p e = stl_facet out buf' mx p e"
  by (simp add: stl_facet_def stl_vertex_def upt_0_3 assms)

lemma stl_file_cong:
  assumes "\<And>p k. p < size_mpi w \<Longrightarrow> k < 9 * (Buffer_Recv_nTriaAll w ! p) \<Longrightarrow>
             buf ! (p * MaxLocalTriaAll w * 9 + k) = bufD_Recv w ! (p * MaxLocalTriaAll w * 9 + k)"
  shows "stl_file out (w\<lparr>bufD_Recv := buf\<rparr>) = stl_file out w"
proof -
  have "stl_facet (out 6) buf (MaxLocalTriaAll w) p e = stl_facet (out 6) (bufD_Recv w) (MaxLocalTriaAll w) p e"
    if p: "p < size_mpi w" and e: "e < Buffer_Recv_nTriaAll w ! p" for p e
  proof (rule stl_facet_cong)
    fix i
    assume lo: "p * MaxLocalTriaAll w * 9 + e * 9 \<le> i" and hi: "i < p * MaxLocalTriaAll w * 9 + e * 9 + 9"
    let ?k = "i - p * MaxLocalTriaAll w * 9"
    have "Suc e * 9 \<le> (Buffer_Recv_nTriaAll w ! p) * 9"
      using e by (intro mult_le_mono1) simp
    then have "?k < 9 * (Buffer_Recv_nTriaAll w ! p)" using lo hi by simp
    then have "buf ! (p * MaxLocalTriaAll w * 9 + ?k) = bufD_Recv w ! (p * MaxLocalTriaAll w * 9 + ?k)"
      using p by (intro assms)
    then show "buf ! i = bufD_Recv w ! i" using lo by simp
  qed
  then show ?thesis
    unfolding stl_file_def
    by (intro arg_cong2 [where f = append] arg_cong [where f = concat] map_cong refl) simp_all
qed

subsection \<open>Conservation of the facet counts, and the format of the file\<close>

text \<open>
  Claim C3. Whenever the gather completes, the count that a rank reports to the
  master is its number of triangles plus twice its number of quadrilaterals; the
  master writes the file, and the number of facet records in it is the sum of these
  counts over all ranks; and of the gathered segment of a rank only the first
  \<open>9 * count\<close> values are read: a receive buffer that differs past them gives the same
  file.
\<close>

theorem facet_count_conservation:
  assumes "GatherCoordData MASTER_NODE (ReprocessElementConnectivity (new_writers fnames sorters)) = Inr ws"
    and "MASTER_NODE < length sorters"
  shows "Buffer_Recv_nTriaAll (ws ! MASTER_NODE)
           = map (\<lambda>ds. GetnElem ds TRIANGLE + 2 * GetnElem ds QUADRILATERAL) sorters
       \<and> Write_Data out MASTER_NODE (new_writers fnames sorters)
           = Inr (map (\<lambda>r. if r = MASTER_NODE then Some (stl_file out (ws ! MASTER_NODE)) else None)
                    [0..<length sorters])
       \<and> count_list (stl_file out (ws ! MASTER_NODE)) ''endfacet''
           = sum_list (map (\<lambda>ds. GetnElem ds TRIANGLE + 2 * GetnElem ds QUADRILATERAL) sorters)
       \<and> ((\<forall>p<length sorters.
             \<forall>k<9 * (GetnElem (sorters ! p) TRIANGLE + 2 * GetnElem (sorters ! p) QUADRILATERAL).
               buf ! (p * MaxLocalTriaAll (ws ! MASTER_NODE) * 9 + k)
                 = bufD_Recv (ws ! MASTER_NODE) ! (p * MaxLocalTriaAll (ws ! MASTER_NODE) * 9 + k))
           \<longrightarrow> stl_file out ((ws ! MASTER_NODE)\<lparr>bufD_Recv := buf\<rparr>) = stl_file out (ws ! MASTER_NODE))"
proof -
  let ?W = "ReprocessElementConnectivity (new_writers fnames sorters)"
  let ?c = "\<lambda>ds. GetnElem ds TRIANGLE + 2 * GetnElem ds QUADRILATERAL"
  have m: "MASTER_NODE < length ?W"
    using assms(2) by (simp add: length_ReprocessElementConnectivity length_new_writers)
  have rk: "rank (?W ! MASTER_NODE) = MASTER_NODE"
    using assms(2) by (simp add: new_writers_frame)
  have cnt: "Buffer_Recv_nTriaAll (ws ! MASTER_NODE) = map ?c sorters"
    using GatherCoordData_Inr(5) [OF assms(1) m rk] by (simp add: map_nLocalTriaAll)
  have sz: "size_mpi (ws ! MASTER_NODE) = length sorters"
    using GatherCoordData_Inr(3) [OF assms(1) m] assms(2) by (simp add: new_writers_frame)
  have written: "Write_Data out MASTER_NODE (new_writers fnames sorters)
           = Inr (map (\<lambda>r. if r = MASTER_NODE then Some (stl_file out (ws ! MASTER_NODE)) else None)
                    [0..<length sorters])"
    unfolding Write_Data_Inr [OF assms(1)] by (simp cong: if_cong)
  have "map (\<lambda>p. map ?c sorters ! p) [0..<length sorters] = map ?c sorters"
    by (rule nth_equalityI) simp_all
  then have count: "count_list (stl_file out (ws ! MASTER_NODE)) ''endfacet'' = sum_list (map ?c sorters)"
    unfolding count_endfacet_stl_file cnt sz by simp
  have tail: "stl_file out ((ws ! MASTER_NODE)\<lparr>bufD_Recv := buf\<rparr>) = stl_file out (ws ! MASTER_NODE)"
    if "\<forall>p<length sorters. \<forall>k<9 * ?c (sorters ! p).
          buf ! (p * MaxLocalTriaAll (ws ! MASTER_NODE) * 9 + k)
            = bufD_Recv (ws ! MASTER_NODE) ! (p * MaxLocalTriaAll (ws ! MASTER_NODE) * 9 + k)"
    using that by (intro stl_file_cong) (simp add: cnt sz)
  show ?thesis
    using cnt written count tail by blast
qed

theorem facet_count_conservation_witness:
  "\<exists>ws. GatherCoordData 0 (ReprocessElementConnectivity mesh2) = Inr ws
      \<and> (0::nat) < length [mesh2_sorter0, mesh2_sorter1]
      \<and> Buffer_Recv_nTriaAll (ws ! 0) = [1, 2]
      \<and> count_list (stl_file (\<lambda>p x. ''0'') (ws ! 0)) ''endfacet'' = 3"
proof -
  have "\<not> isl (GatherCoordData 0 (ReprocessElementConnectivity mesh2))"
    by code_simp
  then obtain ws where ws: "GatherCoordData 0 (ReprocessElementConnectivity mesh2) = Inr ws"
    by (cases "GatherCoordData 0 (ReprocessElementConnectivity mesh2)") auto
  have l: "(0::nat) < length [mesh2_sorter0, mesh2_sorter1]" by simp
  have c: "map (\<lambda>ds. GetnElem ds TRIANGLE + 2 * GetnElem ds QUADRILATERAL) [mesh2_sorter0, mesh2_sorter1]
             = [1, 2]"
    by code_simp
  note t = facet_count_conservation [OF ws [unfolded mesh2_def] l, unfolded c,
      where out = "\<lambda>p x. ''0''"]
  have "Buffer_Recv_nTriaAll (ws ! 0) = [1, 2]"
    and "count_list (stl_file (\<lambda>p x. ''0'') (ws ! 0)) ''endfacet'' = 3"
    using t by simp_all
  then show ?thesis using ws l by blast
qed

text \<open>
  Claim C6. Only the master rank writes a file, and only when no rank has ended the
  run with an error. The file is the line \<open>solid SU2_output\<close>; then, for every rank
  in rank order and for each of the first \<open>Buffer_Recv_nTriaAll\<close> triangles of that
  rank, the seven lines of a facet: the normal \<open>1 2 3\<close>, \<open>outer loop\<close>, three vertex
  lines of three values each, printed at precision 6 and separated by blanks,
  \<open>endloop\<close> and \<open>endfacet\<close>; and at the end the line \<open>endsolid SU2_output\<close>. Every
  other rank writes nothing.
\<close>

theorem coordinator_only_serialization:
  "Write_Data out MASTER_NODE (new_writers fnames sorters)
     = (case GatherCoordData MASTER_NODE (ReprocessElementConnectivity (new_writers fnames sorters)) of
          Inl e \<Rightarrow> Inl e
        | Inr ws \<Rightarrow>
            Inr (map (\<lambda>r.
              if r = MASTER_NODE
              then Some
                ([''solid SU2_output'']
                 @ concat (map (\<lambda>iProcessor.
                     concat (map (\<lambda>iElem.
                       [''facet normal 1 2 3'',
                        ''    outer loop'',
                        stl_vertex (out 6) (bufD_Recv (ws ! r))
                          (iProcessor * MaxLocalTriaAll (ws ! r) * 9 + iElem * 9),
                        stl_vertex (out 6) (bufD_Recv (ws ! r))
                          (iProcessor * MaxLocalTriaAll (ws ! r) * 9 + iElem * 9 + 3),
                        stl_vertex (out 6) (bufD_Recv (ws ! r))
                          (iProcessor * MaxLocalTriaAll (ws ! r) * 9 + iElem * 9 + 6),
                        ''    endloop'',
                        ''endfacet''])
                       [0..<Buffer_Recv_nTriaAll (ws ! r) ! iProcessor]))
                     [0..<length sorters])
                 @ [''endsolid SU2_output''])
              else None) [0..<length sorters]))
   \<and> stl_vertex (out 6) buf i
       = ''        vertex '' @ out 6 (buf ! i) @ '' '' @ out 6 (buf ! (i + 1)) @ '' ''
           @ out 6 (buf ! (i + 2))"
proof
  let ?W = "ReprocessElementConnectivity (new_writers fnames sorters)"
  show "stl_vertex (out 6) buf i
       = ''        vertex '' @ out 6 (buf ! i) @ '' '' @ out 6 (buf ! (i + 1)) @ '' ''
           @ out 6 (buf ! (i + 2))"
    by (simp add: stl_vertex_def upt_0_3)
  show "Write_Data out MASTER_NODE (new_writers fnames sorters)
     = (case GatherCoordData MASTER_NODE ?W of
          Inl e \<Rightarrow> Inl e
        | Inr ws \<Rightarrow>
            Inr (map (\<lambda>r.
              if r = MASTER_NODE
              then Some
                ([''solid SU2_output'']
                 @ concat (map (\<lambda>iProcessor.
                     concat (map (\<lambda>iElem.
                       [''facet normal 1 2 3'',
                        ''    outer loop'',
                        stl_vertex (out 6) (bufD_Recv (ws ! r))
                          (iProcessor * MaxLocalTriaAll (ws ! r) * 9 + iElem * 9),
                        stl_vertex (out 6) (bufD_Recv (ws ! r))
                          (iProcessor * MaxLocalTriaAll (ws ! r) * 9 + iElem * 9 + 3),
                        stl_vertex (out 6) (bufD_Recv (ws ! r))
                          (iProcessor * MaxLocalTriaAll (ws ! r) * 9 + iElem * 9 + 6),
                        ''    endloop'',
                        ''endfacet''])
                       [0..<Buffer_Recv_nTriaAll (ws ! r) ! iProcessor]))
                     [0..<length sorters])
                 @ [''endsolid SU2_output''])
              else None) [0..<length sorters]))"
  proof (cases "GatherCoordData MASTER_NODE ?W")
    case (Inl e)
    then show ?thesis by (simp add: Write_Data_def)
  next
    case (Inr ws)
    have sz: "size_mpi (ws ! r) = length sorters" if "r < length sorters" for r
      using GatherCoordData_Inr(3) [OF Inr, of r] that
      by (simp add: new_writers_frame length_ReprocessElementConnectivity length_new_writers)
    have "stl_file out (ws ! r)
            = [''solid SU2_output'']
                 @ concat (map (\<lambda>iProcessor.
                     concat (map (\<lambda>iElem.
                       [''facet normal 1 2 3'',
                        ''    outer loop'',
                        stl_vertex (out 6) (bufD_Recv (ws ! r))
                          (iProcessor * MaxLocalTriaAll (ws ! r) * 9 + iElem * 9),
                        stl_vertex (out 6) (bufD_Recv (ws ! r))
                          (iProcessor * MaxLocalTriaAll (ws ! r) * 9 + iElem * 9 + 3),
                        stl_vertex (out 6) (bufD_Recv (ws ! r))
                          (iProcessor * MaxLocalTriaAll (ws ! r) * 9 + iElem * 9 + 6),
                        ''    endloop'',
                        ''endfacet''])
                       [0..<Buffer_Recv_nTriaAll (ws ! r) ! iProcessor]))
                     [0..<length sorters])
                 @ [''endsolid SU2_output'']"
      if "r < length sorters" for r
      by (simp add: stl_file_def stl_facet_def upt_0_3 sz [OF that] mult.commute)
    then show ?thesis
      unfolding Write_Data_Inr [OF Inr] Inr sum.case
      by (intro arg_cong [where f = Inr] map_cong refl) simp
  qed
qed

subsection \<open>Enumeration of the send buffer\<close>

lemma halo_scan_ranks_cong:
  assumes "halo_var_data w' = halo_var_data w"
    and "values_to_receive_displacements w' = values_to_receive_displacements w"
    and "num_nodes_to_receive w' = num_nodes_to_receive w"
  shows "halo_scan_ranks w' iVar offset rs id' = halo_scan_ranks w iVar offset rs id'"
  by (induction rs arbitrary: id') (simp_all add: assms split: sum.splits)

lemma GetHaloNodeValue_cong:
  assumes "halo_var_data w' = halo_var_data w"
    and "values_to_receive_displacements w' = values_to_receive_displacements w"
    and "num_nodes_to_receive w' = num_nodes_to_receive w"
    and "sorted_halo_nodes w' = sorted_halo_nodes w"
    and "size_mpi w' = size_mpi w"
  shows "GetHaloNodeValue w' g iVar = GetHaloNodeValue w g iVar"
  by (simp add: GetHaloNodeValue_def assms(4,5) halo_scan_ranks_cong [OF assms(1,2,3)])

lemma node_value_counts:
  assumes "r < length ws"
  shows "node_value (GatherCoordData_counts m ws ! r) g iVar = node_value (ws ! r) g iVar"
proof -
  have "GetHaloNodeValue (GatherCoordData_counts m ws ! r) g iVar = GetHaloNodeValue (ws ! r) g iVar"
    by (rule GetHaloNodeValue_cong) (simp_all add: GatherCoordData_counts_nth [OF assms])
  then show ?thesis
    by (simp add: node_value_def GatherCoordData_counts_nth [OF assms])
qed

lemma load_send_buffer_counts:
  assumes "r < length ws"
    and "\<And>g iVar. g \<in> set (corner_nodes (dataSorter (ws ! r)) TRIANGLE 3
                              @ quadrilateral_nodes (dataSorter (ws ! r)))
           \<Longrightarrow> iVar < 3 \<Longrightarrow> node_value (ws ! r) g iVar = Inr (val g iVar)"
  shows "load_send_buffer (GatherCoordData_counts m ws ! r)
           = Inr (write_at (replicate (Allreduce_MAX (map nLocalTriaAll ws) * 3 * 3) 0) 0
                   (concat (map (\<lambda>g. map (val g) [0..<3])
                              (corner_nodes (dataSorter (ws ! r)) TRIANGLE 3
                               @ quadrilateral_nodes (dataSorter (ws ! r))))))"
proof -
  have ds: "dataSorter (GatherCoordData_counts m ws ! r) = dataSorter (ws ! r)"
    and mx: "MaxLocalTriaAll (GatherCoordData_counts m ws ! r) = Allreduce_MAX (map nLocalTriaAll ws)"
    by (simp_all add: GatherCoordData_counts_nth [OF assms(1)])
  have "load_send_buffer (GatherCoordData_counts m ws ! r)
           = Inr (write_at (replicate (MaxLocalTriaAll (GatherCoordData_counts m ws ! r) * 3 * 3) 0) 0
                   (concat (map (\<lambda>g. map (val g) [0..<3])
                              (corner_nodes (dataSorter (GatherCoordData_counts m ws ! r)) TRIANGLE 3
                               @ quadrilateral_nodes (dataSorter (GatherCoordData_counts m ws ! r))))))"
    by (rule load_send_buffer_Inr) (simp add: node_value_counts [OF assms(1)] ds assms(2))
  then show ?thesis unfolding ds mx .
qed

lemma length_corner_nodes: "length (corner_nodes ds ty npoints) = GetnElem ds ty * npoints"
  by (simp add: corner_nodes_def length_concat_upt)

lemma length_quadrilateral_nodes: "length (quadrilateral_nodes ds) = GetnElem ds QUADRILATERAL * 6"
  by (simp add: quadrilateral_nodes_def length_concat_upt Nodelist_def)

lemma length_concat_map3: "length (concat (map (\<lambda>g. map (f g) [0..<3]) gs)) = 3 * length gs"
  by (induction gs) simp_all

lemma set_quadrilateral_nodes:
  "set (quadrilateral_nodes ds) \<subseteq> set (corner_nodes ds QUADRILATERAL N_POINTS_QUADRILATERAL)"
proof
  fix g assume "g \<in> set (quadrilateral_nodes ds)"
  then obtain e p where e: "e < GetnElem ds QUADRILATERAL" and p: "p < length Nodelist"
    and g: "g = GetElem_Connectivity ds QUADRILATERAL e (Nodelist ! p) - 1"
    by (auto simp: quadrilateral_nodes_def)
  have "\<forall>x\<in>set Nodelist. x < 4" by (simp add: Nodelist_def)
  then have "Nodelist ! p < 4" using p by simp
  then show "g \<in> set (corner_nodes ds QUADRILATERAL N_POINTS_QUADRILATERAL)"
    unfolding set_corner_nodes N_POINTS_QUADRILATERAL_def using e g by blast
qed

lemma load_nodes_referenced:
  "set (corner_nodes ds TRIANGLE 3 @ quadrilateral_nodes ds) \<subseteq> set (referenced_nodes ds)"
  using set_quadrilateral_nodes [of ds]
  by (auto simp: referenced_nodes_def N_POINTS_TRIANGLE_def)

lemma concat_concat_map: "concat (concat xss) = concat (map concat xss)"
  by (induction xss) simp_all

lemma enumerate_triangles_eq:
  "enumerate_triangles ds rk
     = concat (map (\<lambda>g. map (\<lambda>iVar. GetData ds iVar (g - GetNodeBegin ds rk)) [0..<3])
                 (corner_nodes ds TRIANGLE 3))"
  by (simp add: enumerate_triangles_def corner_nodes_def map_concat comp_def concat_concat_map)

lemma direct_enumeration_eq:
  "direct_enumeration ds rk
     = concat (map (\<lambda>g. map (\<lambda>iVar. GetData ds iVar (g - GetNodeBegin ds rk)) [0..<3])
                 (corner_nodes ds TRIANGLE 3 @ quadrilateral_nodes ds))"
proof -
  have "enumerate_triangles (quads_as_triangles ds) rk
          = concat (map (\<lambda>g. map (\<lambda>iVar. GetData ds iVar (g - GetNodeBegin ds rk)) [0..<3])
                      (quadrilateral_nodes ds))"
    unfolding enumerate_triangles_eq corner_nodes_quads_as_triangles
    by (simp add: quads_as_triangles_def)
  then show ?thesis
    by (simp add: direct_enumeration_def enumerate_triangles_eq)
qed

subsection \<open>The run on a single rank\<close>

lemma Allreduce_MAX_single: "Allreduce_MAX [x] = x"
  by (simp add: Allreduce_MAX_def)

lemma packed_block_Nil: "packed_block ds rk nf [] = []"
  by (simp add: packed_block_def)

lemma single_rank_state:
  assumes t: "flat_connectivity ds TRIANGLE N_POINTS_TRIANGLE"
    and q: "flat_connectivity ds QUADRILATERAL N_POINTS_QUADRILATERAL"
    and own: "\<forall>g\<in>set (referenced_nodes ds). FindProcessor ds g = 0"
  shows "ReprocessElementConnectivity (new_writers fnames [ds]) ! 0
     = (new_CSTLFileWriter fnames 1 0 ds)
        \<lparr> halo_nodes := [], sorted_halo_nodes := [0], num_halo_nodes := 0,
          num_nodes_to_receive := [0], num_nodes_to_send := [0],
          nodes_to_send_displacements := [0], nodes_to_receive_displacements := [0],
          nodes_to_send := [0], data_to_send := [0], halo_var_data := [0],
          num_values_to_send := [0], values_to_send_displacements := [0],
          num_values_to_receive := [0], values_to_receive_displacements := [0] \<rparr>"
proof -
  have "set (halo_list ds 0) = {}"
    unfolding set_halo_list [OF t q] using own by simp
  then have H: "halo_list ds 0 = []" by simp
  have R: "requested [ds] 0 0 = []"
    by (simp add: requested_def H)
  have key: "sorted (map (FindProcessor ([ds] ! q)) (halo_list ([ds] ! q) q))"
    if "q < length [ds]" for q
    using that by (simp add: H)
  have r: "(0::nat) < length [ds]" by simp
  show ?thesis
    apply (subst ReprocessElementConnectivity_nth [OF r key])
     apply assumption
    apply (subst request_phase_nth [OF r key])
     apply assumption
    apply (subst demand_phase_nth [OF r])
    apply (simp add: H R packed_block_Nil write_at_Nil)
    done
qed


text \<open>
  Claim C7. One rank owns every node that its elements refer to. Then the halo node
  set is empty and \<open>num_halo_nodes\<close> is 0, while every communication buffer has the
  one element that its allocation was given, and every count that bounds a loop or an
  exchange is 0; the send buffer that \<open>GatherCoordData\<close> builds is the direct
  enumeration of the elements in (element, node, field) order (the triangles, then the
  two triangles of every quadrilateral); and no halo lookup was performed on the way,
  since in this state every call of \<open>GetHaloNodeValue\<close> ends the run with an error,
  which the construction of the buffer did not do.
\<close>

theorem single_rank_round_trip:
  assumes "flat_connectivity ds TRIANGLE N_POINTS_TRIANGLE"
    and "flat_connectivity ds QUADRILATERAL N_POINTS_QUADRILATERAL"
    and "\<forall>g\<in>set (referenced_nodes ds). FindProcessor ds g = 0"
  shows "halo_nodes (ReprocessElementConnectivity (new_writers fnames [ds]) ! 0) = []
       \<and> num_halo_nodes (ReprocessElementConnectivity (new_writers fnames [ds]) ! 0) = 0
       \<and> sorted_halo_nodes (ReprocessElementConnectivity (new_writers fnames [ds]) ! 0) = [0]
       \<and> nodes_to_send (ReprocessElementConnectivity (new_writers fnames [ds]) ! 0) = [0]
       \<and> data_to_send (ReprocessElementConnectivity (new_writers fnames [ds]) ! 0) = [0]
       \<and> halo_var_data (ReprocessElementConnectivity (new_writers fnames [ds]) ! 0) = [0]
       \<and> num_nodes_to_receive (ReprocessElementConnectivity (new_writers fnames [ds]) ! 0) = [0]
       \<and> num_nodes_to_send (ReprocessElementConnectivity (new_writers fnames [ds]) ! 0) = [0]
       \<and> num_values_to_receive (ReprocessElementConnectivity (new_writers fnames [ds]) ! 0) = [0]
       \<and> num_values_to_send (ReprocessElementConnectivity (new_writers fnames [ds]) ! 0) = [0]
       \<and> load_send_buffer
            (GatherCoordData_counts MASTER_NODE
               (ReprocessElementConnectivity (new_writers fnames [ds])) ! 0)
           = Inr (direct_enumeration ds 0)
       \<and> (\<forall>g iVar.
            GetHaloNodeValue
              (GatherCoordData_counts MASTER_NODE
                 (ReprocessElementConnectivity (new_writers fnames [ds])) ! 0) g iVar
             = Inl (MPI_Error ''STL File-Writer: Halo node not found.''))"
proof -
  let ?W = "ReprocessElementConnectivity (new_writers fnames [ds])"
  let ?val = "\<lambda>g iVar. GetData ds iVar (g - GetNodeBegin ds 0)"
  let ?gs = "corner_nodes ds TRIANGLE 3 @ quadrilateral_nodes ds"
  note st = single_rank_state [OF assms, of fnames]
  have len: "0 < length ?W"
    by (simp add: length_ReprocessElementConnectivity length_new_writers)
  have r: "(0::nat) < length [ds]" by simp
  have frame: "rank (?W ! 0) = 0" "dataSorter (?W ! 0) = ds"
    using new_writers_frame [OF r, of fnames] by simp_all
  have nv: "node_value (?W ! 0) g iVar = Inr (?val g iVar)" if "g \<in> set ?gs" for g iVar
  proof -
    have "g \<in> set (referenced_nodes ds)"
      using that load_nodes_referenced [of ds] by blast
    then have "FindProcessor ds g = 0" using assms(3) by blast
    then show ?thesis by (simp add: node_value_def frame)
  qed
  have mx: "Allreduce_MAX (map nLocalTriaAll ?W)
              = GetnElem ds TRIANGLE + 2 * GetnElem ds QUADRILATERAL"
    by (simp add: map_nLocalTriaAll Allreduce_MAX_single)
  have "load_send_buffer (GatherCoordData_counts MASTER_NODE ?W ! 0)
          = Inr (write_at (replicate (Allreduce_MAX (map nLocalTriaAll ?W) * 3 * 3) 0) 0
                  (concat (map (\<lambda>g. map (?val g) [0..<3])
                             (corner_nodes (dataSorter (?W ! 0)) TRIANGLE 3
                              @ quadrilateral_nodes (dataSorter (?W ! 0))))))"
    by (rule load_send_buffer_counts [OF len]) (simp add: frame nv)
  also have "write_at (replicate (Allreduce_MAX (map nLocalTriaAll ?W) * 3 * 3) 0) 0
                  (concat (map (\<lambda>g. map (?val g) [0..<3])
                             (corner_nodes (dataSorter (?W ! 0)) TRIANGLE 3
                              @ quadrilateral_nodes (dataSorter (?W ! 0)))))
               = concat (map (\<lambda>g. map (?val g) [0..<3]) ?gs)"
    unfolding frame mx
    by (rule write_at_all)
       (simp add: length_concat_map3 length_corner_nodes length_quadrilateral_nodes)
  finally have buf: "load_send_buffer (GatherCoordData_counts MASTER_NODE ?W ! 0)
                       = Inr (direct_enumeration ds 0)"
    by (simp add: direct_enumeration_eq)
  have halo: "GetHaloNodeValue (GatherCoordData_counts MASTER_NODE ?W ! 0) g iVar
                = Inl (MPI_Error ''STL File-Writer: Halo node not found.'')" for g iVar
  proof -
    have "GetHaloNodeValue (GatherCoordData_counts MASTER_NODE ?W ! 0) g iVar
            = GetHaloNodeValue (?W ! 0) g iVar"
      by (rule GetHaloNodeValue_cong) (simp_all add: GatherCoordData_counts_nth [OF len])
    also have "\<dots> = Inl (MPI_Error ''STL File-Writer: Halo node not found.'')"
      unfolding GetHaloNodeValue_def Let_def
      by (subst halo_scan_ranks_none) (simp_all add: st)
    finally show ?thesis .
  qed
  show ?thesis
    using buf halo by (simp add: st)
qed

lemma flat_mesh1: "flat_connectivity mesh1_sorter TRIANGLE N_POINTS_TRIANGLE"
  by code_simp

lemma flat_mesh1q: "flat_connectivity mesh1_sorter QUADRILATERAL N_POINTS_QUADRILATERAL"
  by code_simp

lemma owner_mesh1: "\<forall>g\<in>set (referenced_nodes mesh1_sorter). FindProcessor mesh1_sorter g = 0"
  by code_simp

lemma owners_mesh1:
  "map (FindProcessor mesh1_sorter) (referenced_nodes mesh1_sorter) = [0, 0, 0, 0, 0, 0, 0]"
  by code_simp

lemma direct_enumeration_mesh1:
  "direct_enumeration mesh1_sorter 0
     = [0, 1, 2, 100, 101, 102, 200, 201, 202,
        100, 101, 102, 200, 201, 202, 300, 301, 302,
        200, 201, 202, 400, 401, 402, 300, 301, 302]"
  by code_simp

theorem single_rank_round_trip_witness:
  "flat_connectivity mesh1_sorter TRIANGLE N_POINTS_TRIANGLE
   \<and> flat_connectivity mesh1_sorter QUADRILATERAL N_POINTS_QUADRILATERAL
   \<and> map (FindProcessor mesh1_sorter) (referenced_nodes mesh1_sorter) = [0, 0, 0, 0, 0, 0, 0]
   \<and> halo_nodes (ReprocessElementConnectivity mesh1 ! 0) = []
   \<and> num_halo_nodes (ReprocessElementConnectivity mesh1 ! 0) = 0
   \<and> halo_var_data (ReprocessElementConnectivity mesh1 ! 0) = [0]
   \<and> load_send_buffer (GatherCoordData_counts 0 (ReprocessElementConnectivity mesh1) ! 0)
       = Inr [0, 1, 2, 100, 101, 102, 200, 201, 202,
              100, 101, 102, 200, 201, 202, 300, 301, 302,
              200, 201, 202, 400, 401, 402, 300, 301, 302]
   \<and> GetHaloNodeValue (GatherCoordData_counts 0 (ReprocessElementConnectivity mesh1) ! 0) 1 0
       = Inl (MPI_Error ''STL File-Writer: Halo node not found.'')"
  using single_rank_round_trip [OF flat_mesh1 flat_mesh1q owner_mesh1,
          of "[''x'', ''y'', ''z'']" 0, folded mesh1_def, unfolded direct_enumeration_mesh1]
    flat_mesh1 flat_mesh1q owners_mesh1
  by blast

subsection \<open>Facets from the gathered buffer\<close>









subsection \<open>The file as a function of the inputs\<close>













subsection \<open>The buffer after the loop over the quadrilaterals\<close>

lemma write_at_take_drop:
  "off + length xs \<le> length buf \<Longrightarrow>
   write_at buf off xs = take off buf @ xs @ drop (off + length xs) buf"
  by (rule nth_equalityI)
     (auto simp: length_write_at write_at_nth nth_append not_less min_def)

lemma quadrilateral_nodes_split:
  "quadrilateral_nodes ds
     = concat (concat (map (split_quadrilateral ds) [0..<GetnElem ds QUADRILATERAL]))"
  by (simp add: quadrilateral_nodes_def split_quadrilateral_def Nodelist_def upt_0_6
        concat_concat_map comp_def Let_def)

lemma length_split_values:
  "length (concat (map (\<lambda>g. map (val g) [0..<3])
                     (concat (concat (map (split_quadrilateral ds) [0..<n])))))
     = 18 * n"
  by (induction n) (simp_all add: split_quadrilateral_def Let_def)

text \<open>
  Claim C4. From every buffer with room for them, and whenever the coordinates of the
  nodes are found, the loop over the quadrilaterals writes, at the running index and
  for every quadrilateral with the corners \<open>[A, B, C, D]\<close> in element order, the nine
  coordinates of the triangle \<open>[A, B, D]\<close> followed by the nine coordinates of the
  triangle \<open>[B, C, D]\<close>: two triangles and 18 values per quadrilateral, nothing else
  of the buffer changes, and the index moves on by 18 per quadrilateral. Each of these
  triangles is loaded as a native triangle is: the loop is the loop over the triangles,
  run on the data sorter that has the two triangles of every quadrilateral as its
  triangles.
\<close>

theorem quad_splitting:
  assumes "\<And>g iVar. g \<in> set (quadrilateral_nodes (dataSorter w)) \<Longrightarrow> iVar < 3 \<Longrightarrow>
             node_value w g iVar = Inr (val g iVar)"
    and "k + 18 * GetnElem (dataSorter w) QUADRILATERAL \<le> length buf"
  shows "load_quadrilaterals w (buf, k)
           = Inr (take k buf
                  @ concat (map (\<lambda>g. map (val g) [0..<3])
                      (concat (concat (map (split_quadrilateral (dataSorter w))
                                        [0..<GetnElem (dataSorter w) QUADRILATERAL]))))
                  @ drop (k + 18 * GetnElem (dataSorter w) QUADRILATERAL) buf,
                  k + 18 * GetnElem (dataSorter w) QUADRILATERAL)
       \<and> load_quadrilaterals w (buf, k)
           = load_triangles (w\<lparr>dataSorter := quads_as_triangles (dataSorter w)\<rparr>) (buf, k)"
proof
  let ?ds = "dataSorter w"
  let ?n = "GetnElem ?ds QUADRILATERAL"
  let ?vals = "concat (map (\<lambda>g. map (val g) [0..<3])
                 (concat (concat (map (split_quadrilateral ?ds) [0..<?n]))))"
  have len: "length ?vals = 18 * ?n"
    by (rule length_split_values)
  have "load_quadrilaterals w (buf, k) = load_nodes w (quadrilateral_nodes ?ds) (buf, k)"
    by (rule load_quadrilaterals_eq)
  also have "\<dots> = Inr (fold store (concat (map (\<lambda>g. map (val g) [0..<3]) (quadrilateral_nodes ?ds)))
                        (buf, k))"
    by (rule load_nodes_Inr) (rule assms(1))
  also have "\<dots> = Inr (write_at buf k ?vals, k + length ?vals)"
    by (simp add: fold_store quadrilateral_nodes_split)
  also have "write_at buf k ?vals = take k buf @ ?vals @ drop (k + length ?vals) buf"
    by (rule write_at_take_drop) (simp add: len assms(2))
  finally show "load_quadrilaterals w (buf, k)
           = Inr (take k buf @ ?vals @ drop (k + 18 * ?n) buf, k + 18 * ?n)"
    unfolding len .
  show "load_quadrilaterals w (buf, k)
           = load_triangles (w\<lparr>dataSorter := quads_as_triangles ?ds\<rparr>) (buf, k)"
    by (simp add: load_quadrilaterals_eq load_triangles_eq corner_nodes_quads_as_triangles
          load_nodes_quads_as_triangles)
qed

text \<open>
  Rank 1 of the mesh on two ranks, after the exchange and the reduction of the counts:
  its quadrilateral has the corners 0, 1, 4, 5, of which 0 and 1 are halo nodes. The
  buffer of 18 zeros receives the triangles \<open>[0, 1, 5]\<close> and \<open>[1, 4, 5]\<close>.
\<close>

lemma node_values_mesh2_1:
  "\<forall>g\<in>set (quadrilateral_nodes
               (dataSorter (GatherCoordData_counts 0 (ReprocessElementConnectivity mesh2) ! 1))).
     \<forall>iVar\<in>set [0..<3].
       node_value (GatherCoordData_counts 0 (ReprocessElementConnectivity mesh2) ! 1) g iVar
         = Inr (100 * int g + int iVar)"
  by code_simp

lemma room_mesh2_1:
  "0 + 18 * GetnElem (dataSorter (GatherCoordData_counts 0 (ReprocessElementConnectivity mesh2) ! 1))
             QUADRILATERAL
     \<le> length (replicate 18 (0::int))"
  by code_simp

lemma split_values_mesh2_1:
  "take 0 (replicate 18 (0::int))
   @ concat (map (\<lambda>g. map (\<lambda>iVar. 100 * int g + int iVar) [0..<3])
       (concat (concat (map (split_quadrilateral
                  (dataSorter (GatherCoordData_counts 0 (ReprocessElementConnectivity mesh2) ! 1)))
          [0..<GetnElem (dataSorter (GatherCoordData_counts 0 (ReprocessElementConnectivity mesh2) ! 1))
                 QUADRILATERAL]))))
   @ drop (0 + 18 * GetnElem (dataSorter (GatherCoordData_counts 0 (ReprocessElementConnectivity mesh2) ! 1))
                      QUADRILATERAL) (replicate 18 0)
     = [0, 1, 2, 100, 101, 102, 500, 501, 502, 100, 101, 102, 400, 401, 402, 500, 501, 502]"
  by code_simp

lemma index_mesh2_1:
  "0 + 18 * GetnElem (dataSorter (GatherCoordData_counts 0 (ReprocessElementConnectivity mesh2) ! 1))
             QUADRILATERAL = 18"
  by code_simp

theorem quad_splitting_witness:
  "split_quadrilateral mesh2_sorter1 0 = [[0, 1, 5], [1, 4, 5]]
   \<and> load_quadrilaterals (GatherCoordData_counts 0 (ReprocessElementConnectivity mesh2) ! 1)
        (replicate 18 0, 0)
       = Inr ([0, 1, 2, 100, 101, 102, 500, 501, 502, 100, 101, 102, 400, 401, 402, 500, 501, 502],
              18)"
proof -
  let ?w = "GatherCoordData_counts 0 (ReprocessElementConnectivity mesh2) ! 1"
  have nv: "node_value ?w g iVar = Inr (100 * int g + int iVar)"
    if "g \<in> set (quadrilateral_nodes (dataSorter ?w))" "iVar < 3" for g iVar
    using node_values_mesh2_1 that by simp
  have s: "split_quadrilateral mesh2_sorter1 0 = [[0, 1, 5], [1, 4, 5]]"
    by code_simp
  have "load_quadrilaterals ?w (replicate 18 0, 0)
       = Inr ([0, 1, 2, 100, 101, 102, 500, 501, 502, 100, 101, 102, 400, 401, 402, 500, 501, 502],
              18)"
    using quad_splitting [where w = ?w and val = "\<lambda>g iVar. 100 * int g + int iVar" and k = 0
            and buf = "replicate 18 0", OF _ room_mesh2_1, unfolded split_values_mesh2_1,
            unfolded index_mesh2_1] nv
    by blast
  then show ?thesis using s by blast
qed

subsection \<open>Lookups of halo nodes whose data was not received\<close>





end
